theory Spec2Isabelle
  imports Main "HOL-Library.Word"
begin

section \<open>Data model of go/vt/worker/instance.go\<close>

text \<open>
  Heap objects (wranglers, memory loggers, cancellable contexts, channels) and goroutines are
  named by the number the allocator handed out for them. A Go value that may be nil is an
  \<open>option\<close>, with \<open>None\<close> for nil. \<open>time.Duration\<close> is an int64.
\<close>

type_synonym addr = nat
type_synonym tid = nat
type_synonym duration = "64 word"

datatype topo_server = TopoServer nat
datatype tmclient = TabletManagerClient
datatype signal = SIGTERM | SIGINT | SIGHUP

text \<open>A non-nil value of the interface type \<open>Worker\<close>; the job behind it is not looked into.\<close>

datatype worker = Worker nat

text \<open>
  An error value: the one \<open>fmt.Errorf\<close> builds at line 71 from its format string and its
  argument, or any error a job's \<open>Run\<close> hands back.
\<close>

datatype error = Errorf string "worker option" | WorkerError nat

text \<open>
  Modelled from the spec: package logutil is not among the sources. Its loggers are taken as
  free terms: the console logger (the default sink), a memory logger by the address of its
  buffer (nil when the pointer is nil), the tee of two loggers (a sink that duplicates each
  entry to both), and any other sink a caller brings.
\<close>

datatype logger =
    ConsoleLogger
  | MemoryLogger "addr option"
  | TeeLogger logger logger
  | CallerLogger nat

datatype go_context = Background | CancelCtx addr go_context

datatype cancel_func = CancelFunc addr

text \<open>
  Modelled from the spec: package wrangler is not among the sources. A wrangler is taken as
  the record of the four arguments of \<open>wrangler.New\<close>; \<open>Logger\<close> and \<open>SetLogger\<close> read and
  write its logger.
\<close>

record Wrangler =
  wr_logger :: logger
  wr_ts :: topo_server
  wr_tmc :: tmclient
  wr_lockTimeout :: duration

text \<open>
  The struct of lines 24 to 49. The mutex holds the goroutine that locked it (\<open>None\<close> when
  unlocked); Go does not record the owner, the model does, to tell who holds the lock.
\<close>

record Instance =
  wr :: "addr option"
  currentWorkerMutex :: "tid option"
  currentWorker :: "worker option"
  currentMemoryLogger :: "addr option"
  currentContext :: "go_context option"
  currentCancelFunc :: "cancel_func option"
  lastRunError :: "error option"
  topoServer :: topo_server
  cell :: string
  lockTimeout :: duration
  commandDisplayInterval :: duration

text \<open>The five fields the comment of line 29 puts under the mutex.\<close>

datatype field =
    F_currentWorker
  | F_currentMemoryLogger
  | F_currentContext
  | F_currentCancelFunc
  | F_lastRunError

text \<open>
  What a goroutine does that another can observe, in the order it happens: the history of
  the process.
\<close>

datatype event =
    Acquire tid
  | Release tid
  | Read tid field
  | Write tid field
  | Go tid tid
  | Infof string
  | Printf string signal
  | CallRun tid worker "go_context option"
  | RunReturned tid worker "error option"
  | Close tid addr
  | Cancel tid addr
  | Exit tid int

text \<open>
  A goroutine started by the code and not yet over, with the variables its closure captured:
  the job goroutine of line 88 before it is scheduled, inside \<open>wrk.Run\<close>, and between the
  unlock of line 98 and the close of line 99; the signal goroutine of line 109 waiting on its
  channel.
\<close>

datatype goroutine =
    JobSpawned "worker option" addr
  | JobInRun worker addr
  | JobReturned addr
  | SignalWait addr

datatype process_state = Alive | Exited int | Panicked

text \<open>A channel: its capacity and whether it has been closed.\<close>

datatype chan = Chan nat bool

datatype 'a result = Return 'a | Panic

record world =
  inst :: Instance
  wranglers :: "addr \<Rightarrow> Wrangler option"
  chans :: "addr \<Rightarrow> chan option"
  nextAddr :: addr
  goroutines :: "(tid \<times> goroutine) list"
  cancelled :: "addr list"
  notify :: "(signal \<times> addr) list"
  process :: process_state
  trace :: "event list"

section \<open>Primitives\<close>

definition emit :: "event \<Rightarrow> world \<Rightarrow> world" where
  "emit e w = w\<lparr>trace := trace w @ [e]\<rparr>"

definition alloc :: "world \<Rightarrow> addr \<times> world" where
  "alloc w = (nextAddr w, w\<lparr>nextAddr := Suc (nextAddr w)\<rparr>)"

text \<open>
  \<open>sync.Mutex.Lock\<close> returns once the mutex is free; on a locked mutex the caller waits, which
  is the result \<open>None\<close>: the call has not returned and nothing has happened.
\<close>

definition mutex_Lock :: "tid \<Rightarrow> world \<Rightarrow> world option" where
  "mutex_Lock t w =
     (if currentWorkerMutex (inst w) = None
      then Some (emit (Acquire t) (w\<lparr>inst := (inst w)\<lparr>currentWorkerMutex := Some t\<rparr>\<rparr>))
      else None)"

definition mutex_Unlock :: "tid \<Rightarrow> world \<Rightarrow> world" where
  "mutex_Unlock t w = emit (Release t) (w\<lparr>inst := (inst w)\<lparr>currentWorkerMutex := None\<rparr>\<rparr>)"

text \<open>A read and a write of one of the five fields by goroutine \<open>t\<close>, entered in the history.\<close>

definition load :: "tid \<Rightarrow> field \<Rightarrow> world \<Rightarrow> world" where
  "load t f w = emit (Read t f) w"

definition store :: "tid \<Rightarrow> field \<Rightarrow> (Instance \<Rightarrow> Instance) \<Rightarrow> world \<Rightarrow> world" where
  "store t f upd w = emit (Write t f) (w\<lparr>inst := upd (inst w)\<rparr>)"

text \<open>
  Modelled from the spec: the constructors of package logutil, which is not among the
  sources. A console logger has no state of its own; a memory logger is a new buffer; a tee
  logger is made of the two loggers it duplicates its entries to.
\<close>

definition logutil_NewConsoleLogger :: logger where
  "logutil_NewConsoleLogger = ConsoleLogger"

definition logutil_NewMemoryLogger :: "world \<Rightarrow> addr \<times> world" where
  "logutil_NewMemoryLogger w = alloc w"

definition logutil_NewTeeLogger :: "logger \<Rightarrow> logger \<Rightarrow> logger" where
  "logutil_NewTeeLogger one two = TeeLogger one two"

text \<open>
  Modelled from the spec: package tmclient is not among the sources; the client it builds is
  passed on to the wrangler and not looked into.
\<close>

definition tmclient_NewTabletManagerClient :: tmclient where
  "tmclient_NewTabletManagerClient = TabletManagerClient"

text \<open>
  Modelled from the spec: \<open>wrangler.New\<close>, \<open>Logger\<close> and \<open>SetLogger\<close> of package wrangler, which
  is not among the sources. \<open>New\<close> allocates a wrangler holding its four arguments.
\<close>

definition wrangler_New ::
  "logger \<Rightarrow> topo_server \<Rightarrow> tmclient \<Rightarrow> duration \<Rightarrow> world \<Rightarrow> addr \<times> world" where
  "wrangler_New lg ts tmc lt w =
     (let (a, w1) = alloc w
      in (a, w1\<lparr>wranglers := (wranglers w1)
            (a \<mapsto> \<lparr>wr_logger = lg, wr_ts = ts, wr_tmc = tmc, wr_lockTimeout = lt\<rparr>)\<rparr>))"

text \<open>
  Dereferencing a \<open>*wrangler.Wrangler\<close>, as \<open>Logger\<close> does to read the logger; \<open>None\<close> is the
  nil pointer dereference, a panic.
\<close>

definition deref :: "world \<Rightarrow> addr option \<Rightarrow> Wrangler option" where
  "deref w p = (case p of None \<Rightarrow> None | Some a \<Rightarrow> wranglers w a)"

definition wrangler_SetLogger :: "addr option \<Rightarrow> logger \<Rightarrow> world \<Rightarrow> world" where
  "wrangler_SetLogger p lg w =
     (case p of
        None \<Rightarrow> w
      | Some a \<Rightarrow> w\<lparr>wranglers := (wranglers w)(a := map_option (\<lambda>x. x\<lparr>wr_logger := lg\<rparr>) (wranglers w a))\<rparr>)"

text \<open>\<open>context.WithCancel\<close>: a new cancellable child of the parent, and the function that cancels it.\<close>

definition context_WithCancel :: "go_context \<Rightarrow> world \<Rightarrow> go_context \<times> cancel_func \<times> world" where
  "context_WithCancel parent w =
     (let (a, w1) = alloc w in (CancelCtx a parent, CancelFunc a, w1))"

definition call_cancel :: "tid \<Rightarrow> cancel_func \<Rightarrow> world \<Rightarrow> world" where
  "call_cancel t cf w =
     (case cf of CancelFunc a \<Rightarrow> emit (Cancel t a) (w\<lparr>cancelled := List.insert a (cancelled w)\<rparr>))"

definition make_chan :: "nat \<Rightarrow> world \<Rightarrow> addr \<times> world" where
  "make_chan n w =
     (let (a, w1) = alloc w in (a, w1\<lparr>chans := (chans w1)(a \<mapsto> Chan n False)\<rparr>))"

text \<open>\<open>close(c)\<close>: closing a nil channel or a closed one panics.\<close>

definition close_chan :: "tid \<Rightarrow> addr \<Rightarrow> world \<Rightarrow> unit result \<times> world" where
  "close_chan t c w =
     (case chans w c of
        Some (Chan n False) \<Rightarrow> (Return (), emit (Close t c) (w\<lparr>chans := (chans w)(c \<mapsto> Chan n True)\<rparr>))
      | _ \<Rightarrow> (Panic, w))"

text \<open>The \<open>go\<close> statement: goroutine \<open>t\<close> starts a new goroutine running the closure \<open>gr\<close>.\<close>

definition go :: "tid \<Rightarrow> goroutine \<Rightarrow> world \<Rightarrow> world" where
  "go t gr w =
     (let (g, w1) = alloc w
      in emit (Go t g) (w1\<lparr>goroutines := goroutines w1 @ [(g, gr)]\<rparr>))"

definition signal_Notify :: "addr \<Rightarrow> signal list \<Rightarrow> world \<Rightarrow> world" where
  "signal_Notify c sigs w = w\<lparr>notify := notify w @ map (\<lambda>s. (s, c)) sigs\<rparr>"

text \<open>\<open>os.Exit\<close> ends the process at once; deferred calls do not run.\<close>

definition os_Exit :: "tid \<Rightarrow> int \<Rightarrow> world \<Rightarrow> world" where
  "os_Exit t code w = emit (Exit t code) (w\<lparr>process := Exited code\<rparr>)"

section \<open>The functions of instance.go\<close>

text \<open>Lines 60 to 62.\<close>

definition CreateWrangler :: "logger \<Rightarrow> world \<Rightarrow> addr \<times> world" where
  "CreateWrangler lg w =
     wrangler_New lg (topoServer (inst w)) tmclient_NewTabletManagerClient (lockTimeout (inst w)) w"

text \<open>
  Lines 52 to 57. The composite literal of line 53 names three fields; every other field has
  its zero value.
\<close>

definition NewInstance :: "topo_server \<Rightarrow> string \<Rightarrow> duration \<Rightarrow> duration \<Rightarrow> world" where
  "NewInstance ts cell' lockTimeout' commandDisplayInterval' =
     (let wi = \<lparr>wr = None, currentWorkerMutex = None, currentWorker = None,
                currentMemoryLogger = None, currentContext = None, currentCancelFunc = None,
                lastRunError = None, topoServer = ts, cell = cell', lockTimeout = 0,
                commandDisplayInterval = commandDisplayInterval'\<rparr>;
          w0 = \<lparr>inst = wi, wranglers = (\<lambda>a. None), chans = (\<lambda>a. None), nextAddr = 0,
                goroutines = [], cancelled = [], notify = [], process = Alive, trace = []\<rparr>;
          (a, w1) = CreateWrangler logutil_NewConsoleLogger w0
      in w1\<lparr>inst := (inst w1)\<lparr>wr := Some a\<rparr>\<rparr>)"

text \<open>
  Lines 67 to 103, called by goroutine \<open>t\<close>. The deferred unlock runs on every way out, the
  panic of a nil \<open>wr\<close> at line 79 included.
\<close>

definition setAndStartWorker ::
  "tid \<Rightarrow> worker option \<Rightarrow> addr option \<Rightarrow> world \<Rightarrow> ((addr option \<times> error option) result \<times> world) option" where
  "setAndStartWorker t wrk wr' w0 =
     (case mutex_Lock t w0 of
        None \<Rightarrow> None
      | Some w1 \<Rightarrow>
          let w2 = load t F_currentWorker w1 in
          if currentWorker (inst w2) \<noteq> None then
            let w3 = load t F_currentWorker w2;
                e = Errorf ''A worker is already in progress: %v'' (currentWorker (inst w3))
            in Some (Return (None, Some e), mutex_Unlock t w3)
          else
            let w3 = store t F_currentWorker (\<lambda>i. i\<lparr>currentWorker := wrk\<rparr>) w2;
                (ml, w4) = logutil_NewMemoryLogger w3;
                w5 = store t F_currentMemoryLogger (\<lambda>i. i\<lparr>currentMemoryLogger := Some ml\<rparr>) w4;
                (ctx, cancel, w6) = context_WithCancel Background w5;
                w7 = store t F_currentContext (\<lambda>i. i\<lparr>currentContext := Some ctx\<rparr>) w6;
                w8 = store t F_currentCancelFunc (\<lambda>i. i\<lparr>currentCancelFunc := Some cancel\<rparr>) w7;
                w9 = store t F_lastRunError (\<lambda>i. i\<lparr>lastRunError := None\<rparr>) w8;
                (doneCh, w10) = make_chan 0 w9
            in (case deref w10 wr' of
                  None \<Rightarrow> Some (Panic, mutex_Unlock t w10)
                | Some x \<Rightarrow>
                    let wranglerLogger = wr_logger x;
                        wranglerLogger =
                          (if wr' = wr (inst w10) then logutil_NewConsoleLogger else wranglerLogger);
                        w11 = load t F_currentMemoryLogger w10;
                        w12 = wrangler_SetLogger wr'
                                (logutil_NewTeeLogger (MemoryLogger (currentMemoryLogger (inst w11)))
                                   wranglerLogger) w11;
                        w13 = go t (JobSpawned wrk doneCh) w12
                    in Some (Return (Some doneCh, None), mutex_Unlock t w13)))"

text \<open>
  The goroutine of lines 88 to 100, run by goroutine \<open>g\<close>, in its three parts. First lines 90
  and 91 up to the call of \<open>Run\<close>: calling a method of a nil interface panics.
\<close>

definition worker_start ::
  "tid \<Rightarrow> worker option \<Rightarrow> world \<Rightarrow> (worker \<times> go_context option) result \<times> world" where
  "worker_start g wrk w0 =
     (let w1 = emit (Infof ''Starting worker...'') w0 in
      case wrk of
        None \<Rightarrow> (Panic, w1)
      | Some j \<Rightarrow>
          let w2 = load g F_currentContext w1;
              ctx = currentContext (inst w2)
          in (Return (j, ctx), emit (CallRun g j ctx) w2))"

text \<open>Then \<open>Run\<close> of the job \<open>j\<close> returns \<open>err\<close> and lines 94 to 98 save the state.\<close>

definition worker_save_state :: "tid \<Rightarrow> worker \<Rightarrow> error option \<Rightarrow> world \<Rightarrow> world option" where
  "worker_save_state g j err w0 =
     (case mutex_Lock g (emit (RunReturned g j err) w0) of
        None \<Rightarrow> None
      | Some w1 \<Rightarrow>
          let w2 = store g F_currentContext (\<lambda>i. i\<lparr>currentContext := None\<rparr>) w1;
              w3 = store g F_currentCancelFunc (\<lambda>i. i\<lparr>currentCancelFunc := None\<rparr>) w2;
              w4 = store g F_lastRunError (\<lambda>i. i\<lparr>lastRunError := err\<rparr>) w3
          in Some (mutex_Unlock g w4))"

text \<open>Last, line 99.\<close>

definition worker_close_done :: "tid \<Rightarrow> addr \<Rightarrow> world \<Rightarrow> unit result \<times> world" where
  "worker_close_done g doneCh w = close_chan g doneCh w"

text \<open>
  The completion step as a whole: lines 94 to 99 once \<open>Run\<close> has returned \<open>err\<close>, with nothing
  else running in between.
\<close>

definition worker_completion ::
  "tid \<Rightarrow> worker \<Rightarrow> error option \<Rightarrow> addr \<Rightarrow> world \<Rightarrow> (unit result \<times> world) option" where
  "worker_completion g j err doneCh w =
     (case worker_save_state g j err w of
        None \<Rightarrow> None
      | Some w1 \<Rightarrow> Some (worker_close_done g doneCh w1))"

text \<open>Lines 106 to 121, called by goroutine \<open>t\<close>.\<close>

definition InstallSignalHandlers :: "tid \<Rightarrow> world \<Rightarrow> world" where
  "InstallSignalHandlers t w0 =
     (let (sigChan, w1) = make_chan 1 w0;
          w2 = signal_Notify sigChan [SIGTERM, SIGINT] w1
      in go t (SignalWait sigChan) w2)"

text \<open>
  The goroutine of lines 109 to 120, run by goroutine \<open>g\<close>, once it has received the signal
  \<open>s\<close> at line 110. The unlock is deferred, so it does not run after \<open>os.Exit\<close>.
\<close>

definition signal_handler :: "tid \<Rightarrow> signal \<Rightarrow> world \<Rightarrow> world option" where
  "signal_handler g s w0 =
     (case mutex_Lock g w0 of
        None \<Rightarrow> None
      | Some w1 \<Rightarrow>
          let w2 = load g F_currentCancelFunc w1 in
          if currentCancelFunc (inst w2) \<noteq> None then
            let w3 = load g F_currentCancelFunc w2;
                w4 = (case currentCancelFunc (inst w3) of
                        Some cf \<Rightarrow> call_cancel g cf w3
                      | None \<Rightarrow> w3\<lparr>process := Panicked\<rparr>)
            in Some (mutex_Unlock g w4)
          else
            let w3 = emit (Printf ''Shutting down idle worker after receiving signal: %v'' s) w2
            in Some (os_Exit g 0 w3))"

section \<open>The three states\<close>

text \<open>The comment of lines 30 to 37.\<close>

definition Idle :: "Instance \<Rightarrow> bool" where
  "Idle wi = (currentWorker wi = None \<and> currentContext wi = None
              \<and> currentCancelFunc wi = None \<and> lastRunError wi = None)"

definition Running :: "Instance \<Rightarrow> bool" where
  "Running wi = (currentWorker wi \<noteq> None \<and> currentContext wi \<noteq> None
                 \<and> currentCancelFunc wi \<noteq> None \<and> lastRunError wi = None)"

definition Completed :: "Instance \<Rightarrow> bool" where
  "Completed wi = (currentWorker wi \<noteq> None \<and> currentContext wi = None
                   \<and> currentCancelFunc wi = None)"

text \<open>
  The results of the runs that have returned, oldest first, each with its job; the channels
  closed so far, with repetition.
\<close>

definition finished :: "event list \<Rightarrow> (worker \<times> error option) list" where
  "finished tr = [(j, r). RunReturned g j r \<leftarrow> tr]"

definition closes :: "event list \<Rightarrow> addr list" where
  "closes tr = [c. Close g c \<leftarrow> tr]"

text \<open>A job goroutine whose \<open>Run\<close> has not returned yet: a job is executing.\<close>

fun executing :: "goroutine \<Rightarrow> bool" where
  "executing (JobSpawned wrk doneCh) = True"
| "executing (JobInRun j doneCh) = True"
| "executing (JobReturned doneCh) = False"
| "executing (SignalWait sigChan) = False"

definition job_executing :: "world \<Rightarrow> bool" where
  "job_executing w = (\<exists>x \<in> set (goroutines w). executing (snd x))"

text \<open>
  The third state in full: the instance is completed and \<open>lastRunError\<close> is the result of
  the last run that returned, which is the run of the current worker.
\<close>

definition settled :: "world \<Rightarrow> bool" where
  "settled w =
     (Completed (inst w) \<and> finished (trace w) \<noteq> []
      \<and> currentWorker (inst w) = Some (fst (last (finished (trace w))))
      \<and> lastRunError (inst w) = snd (last (finished (trace w))))"

definition three_state :: "world \<Rightarrow> bool" where
  "three_state w = (Idle (inst w) \<or> Running (inst w) \<or> settled w)"

definition closed :: "world \<Rightarrow> addr \<Rightarrow> bool" where
  "closed w c = (case chans w c of None \<Rightarrow> False | Some (Chan n b) \<Rightarrow> b)"

text \<open>An address the allocator has handed out already.\<close>

definition allocated :: "world \<Rightarrow> addr \<Rightarrow> bool" where
  "allocated w a = (a < nextAddr w)"

section \<open>Schedules\<close>

text \<open>
  The goroutines of the process run interleaved. One action of a schedule is one of the
  operations, or one part of a goroutine of the code; it runs without interruption where the
  code holds the mutex or touches nothing shared. A caller admits the worker it passes, the
  nil worker included: \<open>setAndStartWorker\<close> does not check it.
\<close>

datatype action =
    MakeWrangler logger
  | Install tid
  | Admit tid "worker option" "addr option"
  | Start tid
  | Finish tid "error option"
  | CloseDone tid
  | Signal tid signal

definition become :: "tid \<Rightarrow> goroutine \<Rightarrow> goroutine \<Rightarrow> world \<Rightarrow> world" where
  "become g old new w = w\<lparr>goroutines := remove1 (g, old) (goroutines w) @ [(g, new)]\<rparr>"

definition over :: "tid \<Rightarrow> goroutine \<Rightarrow> world \<Rightarrow> world" where
  "over g old w = w\<lparr>goroutines := remove1 (g, old) (goroutines w)\<rparr>"

definition panicked :: "world \<Rightarrow> world" where
  "panicked w = w\<lparr>process := Panicked\<rparr>"

text \<open>
  \<open>None\<close>: the action cannot run now (there is no such goroutine at that point of its code,
  the signal is not one it waits for, or the mutex is taken). A panic nobody recovers ends
  the process.
\<close>

fun exec :: "action \<Rightarrow> world \<Rightarrow> world option" where
  "exec (MakeWrangler lg) w = Some (snd (CreateWrangler lg w))"
| "exec (Install t) w = Some (InstallSignalHandlers t w)"
| "exec (Admit t wrk wr') w =
     (case setAndStartWorker t wrk wr' w of
        None \<Rightarrow> None
      | Some (Return r, w') \<Rightarrow> Some w'
      | Some (Panic, w') \<Rightarrow> Some (panicked w'))"
| "exec (Start g) w =
     (case map_of (goroutines w) g of
        Some (JobSpawned wrk doneCh) \<Rightarrow>
          (case worker_start g wrk w of
             (Return (j, ctx), w') \<Rightarrow> Some (become g (JobSpawned wrk doneCh) (JobInRun j doneCh) w')
           | (Panic, w') \<Rightarrow> Some (panicked w'))
      | _ \<Rightarrow> None)"
| "exec (Finish g err) w =
     (case map_of (goroutines w) g of
        Some (JobInRun j doneCh) \<Rightarrow>
          (case worker_save_state g j err w of
             None \<Rightarrow> None
           | Some w' \<Rightarrow> Some (become g (JobInRun j doneCh) (JobReturned doneCh) w'))
      | _ \<Rightarrow> None)"
| "exec (CloseDone g) w =
     (case map_of (goroutines w) g of
        Some (JobReturned doneCh) \<Rightarrow>
          (case worker_close_done g doneCh w of
             (Return u, w') \<Rightarrow> Some (over g (JobReturned doneCh) w')
           | (Panic, w') \<Rightarrow> Some (panicked w'))
      | _ \<Rightarrow> None)"
| "exec (Signal g s) w =
     (case map_of (goroutines w) g of
        Some (SignalWait sigChan) \<Rightarrow>
          (if (s, sigChan) \<in> set (notify w)
           then map_option (over g (SignalWait sigChan)) (signal_handler g s w)
           else None)
      | _ \<Rightarrow> None)"



definition step :: "action \<Rightarrow> world \<Rightarrow> world option" where
  "step a w = (if process w = Alive then exec a w else None)"

fun run :: "action list \<Rightarrow> world \<Rightarrow> world option" where
  "run [] w = Some w"
| "run (a # as) w = (case step a w of None \<Rightarrow> None | Some w' \<Rightarrow> run as w')"

text \<open>
  What holds of every world a schedule reaches without a panic: the allocator has not yet
  handed out the address of any channel to come; a channel was closed once if it is closed
  and never otherwise; a closed channel goes with the settled state; the process, while alive
  and between two actions, has its mutex free; and the goroutines of jobs, those that
  captured a worker that is not nil, are, by state, none while no worker is current, the one
  of the current worker before its \<open>Run\<close> has returned, or that one with its state saved,
  the channel it will close still open.
\<close>

fun is_job :: "goroutine \<Rightarrow> bool" where
  "is_job (JobSpawned None doneCh) = False"
| "is_job (SignalWait sigChan) = False"
| "is_job x = True"

definition job_goroutines :: "world \<Rightarrow> (tid \<times> goroutine) list" where
  "job_goroutines w = filter (\<lambda>p. is_job (snd p)) (goroutines w)"

definition job_state :: "world \<Rightarrow> bool" where
  "job_state w =
     ((currentWorker (inst w) = None \<and> lastRunError (inst w) = None \<and> job_goroutines w = [])
      \<or> (\<exists>g j c. Running (inst w) \<and> currentWorker (inst w) = Some j
            \<and> chans w c = Some (Chan 0 False)
            \<and> (job_goroutines w = [(g, JobSpawned (Some j) c)]
               \<or> job_goroutines w = [(g, JobInRun j c)]))
      \<or> (\<exists>g c. settled w \<and> chans w c = Some (Chan 0 False)
            \<and> job_goroutines w = [(g, JobReturned c)])
      \<or> (settled w \<and> job_goroutines w = []))"

definition coherent :: "world \<Rightarrow> bool" where
  "coherent w =
     ((\<forall>a. nextAddr w \<le> a \<longrightarrow> chans w a = None)
      \<and> (\<forall>c. count_list (closes (trace w)) c = (if closed w c then 1 else 0))
      \<and> (\<forall>c. closed w c \<longrightarrow> settled w)
      \<and> (process w = Alive \<longrightarrow> currentWorkerMutex (inst w) = None)
      \<and> job_state w)"

text \<open>
  Lock discipline of a history: every read and every write of a field under the mutex is made
  by the goroutine that holds the mutex at that moment. \<open>h\<close> is the holder so far.
\<close>

fun guarded :: "tid option \<Rightarrow> event list \<Rightarrow> bool" where
  "guarded h [] = True"
| "guarded h (Acquire t # es) = guarded (Some t) es"
| "guarded h (Release t # es) = guarded None es"
| "guarded h (Read t f # es) = (h = Some t \<and> guarded h es)"
| "guarded h (Write t f # es) = (h = Some t \<and> guarded h es)"
| "guarded h (e # es) = guarded h es"

text \<open>The goroutine that holds the mutex after a history, \<open>h\<close> holding it before.\<close>

fun holder :: "tid option \<Rightarrow> event list \<Rightarrow> tid option" where
  "holder h [] = h"
| "holder h (Acquire t # es) = holder (Some t) es"
| "holder h (Release t # es) = holder None es"
| "holder h (e # es) = holder h es"

text \<open>
  A history without its reads of \<open>currentContext\<close>. The file reads that field at line 91 and
  nowhere else.
\<close>

definition but_context_reads :: "event list \<Rightarrow> event list" where
  "but_context_reads tr = filter (\<lambda>e. \<forall>g. e \<noteq> Read g F_currentContext) tr"

text \<open>
  What holds of every world a schedule reaches, panic or not: but for the reads of
  \<open>currentContext\<close> the history keeps the lock discipline; the mutex is held by the goroutine
  the history says; and it is free while the process is alive and between two actions.
\<close>

definition disciplined :: "world \<Rightarrow> bool" where
  "disciplined w =
     (guarded None (but_context_reads (trace w))
      \<and> holder None (trace w) = currentWorkerMutex (inst w)
      \<and> (process w = Alive \<longrightarrow> currentWorkerMutex (inst w) = None))"


text \<open>
  What holds after the admission of the job \<open>j\<close> that returned the channel \<open>d\<close> and started
  the goroutine \<open>g\<close>: \<open>j\<close> is the current worker, and either the channel is not closed and
  \<open>g\<close> is the one goroutine of a job, with \<open>d\<close> the channel it will close, or the channel is
  closed and no goroutine of a job is left.
\<close>

definition awaits :: "tid \<Rightarrow> worker \<Rightarrow> addr \<Rightarrow> world \<Rightarrow> bool" where
  "awaits g j d w =
     (currentWorker (inst w) = Some j
      \<and> ((\<not> closed w d
           \<and> (job_goroutines w = [(g, JobSpawned (Some j) d)]
              \<or> job_goroutines w = [(g, JobInRun j d)]
              \<or> job_goroutines w = [(g, JobReturned d)]))
         \<or> (closed w d \<and> job_goroutines w = [])))"

section \<open>A run of the program\<close>

text \<open>The world a schedule leads to; the world itself when the schedule cannot run.\<close>

definition after :: "action list \<Rightarrow> world \<Rightarrow> world" where
  "after as w = (case run as w of None \<Rightarrow> w | Some w' \<Rightarrow> w')"

text \<open>
  An instance built with a lock timeout of 30; a job admitted on the default wrangler; its
  goroutine inside \<open>Run\<close>; \<open>Run\<close> returned with an error and the state saved; the channel
  closed. And the instance after the admission of a nil worker, and with a wrangler of a
  caller's own.
\<close>

definition example_instance :: world where
  "example_instance = NewInstance (TopoServer 0) ''test'' 30 1"

definition example_admitted :: world where
  "example_admitted = after [Admit 9 (Some (Worker 1)) (Some 0)] example_instance"

definition example_running :: world where
  "example_running = after [Start 4] example_admitted"

definition example_returned :: world where
  "example_returned = after [Finish 4 (Some (WorkerError 3))] example_running"

definition example_completed :: world where
  "example_completed = after [CloseDone 4] example_returned"

definition example_nil_admitted :: world where
  "example_nil_admitted = after [Admit 9 None (Some 0)] example_instance"

definition example_custom :: world where
  "example_custom = after [MakeWrangler (CallerLogger 7)] example_instance"

section \<open>The functions in closed form\<close>

lemmas prim_defs = emit_def alloc_def mutex_Lock_def mutex_Unlock_def load_def store_def
  logutil_NewConsoleLogger_def logutil_NewMemoryLogger_def logutil_NewTeeLogger_def
  tmclient_NewTabletManagerClient_def wrangler_New_def deref_def wrangler_SetLogger_def
  context_WithCancel_def call_cancel_def make_chan_def close_chan_def go_def signal_Notify_def
  os_Exit_def

lemma CreateWrangler_eq:
  "CreateWrangler lg w =
     (nextAddr w,
      w\<lparr>wranglers := (wranglers w)(nextAddr w \<mapsto>
             \<lparr>wr_logger = lg, wr_ts = topoServer (inst w), wr_tmc = TabletManagerClient,
              wr_lockTimeout = lockTimeout (inst w)\<rparr>),
        nextAddr := Suc (nextAddr w)\<rparr>)"
  by (simp add: CreateWrangler_def prim_defs)

lemma NewInstance_eq:
  "NewInstance ts c lt cdi =
     \<lparr>inst = \<lparr>wr = Some 0, currentWorkerMutex = None, currentWorker = None,
               currentMemoryLogger = None, currentContext = None, currentCancelFunc = None,
               lastRunError = None, topoServer = ts, cell = c, lockTimeout = 0,
               commandDisplayInterval = cdi\<rparr>,
      wranglers = (\<lambda>a. None)(0 \<mapsto> \<lparr>wr_logger = ConsoleLogger, wr_ts = ts,
               wr_tmc = TabletManagerClient, wr_lockTimeout = 0\<rparr>),
      chans = (\<lambda>a. None), nextAddr = 1, goroutines = [], cancelled = [], notify = [],
      process = Alive, trace = []\<rparr>"
  by (simp add: NewInstance_def CreateWrangler_eq logutil_NewConsoleLogger_def)

lemma setAndStartWorker_blocked:
  "currentWorkerMutex (inst w) \<noteq> None \<Longrightarrow> setAndStartWorker t wrk p w = None"
  by (auto simp: setAndStartWorker_def mutex_Lock_def)

lemma setAndStartWorker_busy:
  assumes "currentWorkerMutex (inst w) = None" and "currentWorker (inst w) \<noteq> None"
  shows "setAndStartWorker t wrk p w =
    Some (Return (None, Some (Errorf ''A worker is already in progress: %v'' (currentWorker (inst w)))),
          w\<lparr>trace := trace w @ [Acquire t, Read t F_currentWorker, Read t F_currentWorker, Release t]\<rparr>)"
  using assms by (simp add: setAndStartWorker_def prim_defs Let_def)

lemma setAndStartWorker_admit:
  assumes "currentWorkerMutex (inst w) = None" and "currentWorker (inst w) = None"
    and "wranglers w a = Some x"
  shows "setAndStartWorker t wrk (Some a) w =
    Some (Return (Some (nextAddr w + 2), None),
          w\<lparr>inst := (inst w)\<lparr>currentWorker := wrk, currentMemoryLogger := Some (nextAddr w),
                  currentContext := Some (CancelCtx (nextAddr w + 1) Background),
                  currentCancelFunc := Some (CancelFunc (nextAddr w + 1)),
                  lastRunError := None\<rparr>,
            wranglers := (wranglers w)(a \<mapsto> x\<lparr>wr_logger :=
                 TeeLogger (MemoryLogger (Some (nextAddr w)))
                   (if Some a = wr (inst w) then ConsoleLogger else wr_logger x)\<rparr>),
            chans := (chans w)(nextAddr w + 2 \<mapsto> Chan 0 False),
            nextAddr := nextAddr w + 4,
            goroutines := goroutines w @ [(nextAddr w + 3, JobSpawned wrk (nextAddr w + 2))],
            trace := trace w @ [Acquire t, Read t F_currentWorker, Write t F_currentWorker,
               Write t F_currentMemoryLogger, Write t F_currentContext, Write t F_currentCancelFunc,
               Write t F_lastRunError, Read t F_currentMemoryLogger, Go t (nextAddr w + 3), Release t]\<rparr>)"
  using assms by (simp add: setAndStartWorker_def prim_defs Let_def)

lemma setAndStartWorker_panic:
  assumes "currentWorkerMutex (inst w) = None" and "currentWorker (inst w) = None"
    and "deref w p = None"
  shows "setAndStartWorker t wrk p w =
    Some (Panic,
          w\<lparr>inst := (inst w)\<lparr>currentWorker := wrk, currentMemoryLogger := Some (nextAddr w),
                  currentContext := Some (CancelCtx (nextAddr w + 1) Background),
                  currentCancelFunc := Some (CancelFunc (nextAddr w + 1)),
                  lastRunError := None\<rparr>,
            chans := (chans w)(nextAddr w + 2 \<mapsto> Chan 0 False),
            nextAddr := nextAddr w + 3,
            trace := trace w @ [Acquire t, Read t F_currentWorker, Write t F_currentWorker,
               Write t F_currentMemoryLogger, Write t F_currentContext, Write t F_currentCancelFunc,
               Write t F_lastRunError, Release t]\<rparr>)"
  using assms by (cases p) (simp_all add: setAndStartWorker_def prim_defs Let_def)

lemma worker_start_job:
  "worker_start g (Some j) w =
     (Return (j, currentContext (inst w)),
      w\<lparr>trace := trace w @ [Infof ''Starting worker...'', Read g F_currentContext,
                           CallRun g j (currentContext (inst w))]\<rparr>)"
  by (simp add: worker_start_def prim_defs Let_def)

lemma worker_start_nil:
  "worker_start g None w = (Panic, w\<lparr>trace := trace w @ [Infof ''Starting worker...'']\<rparr>)"
  by (simp add: worker_start_def prim_defs Let_def)

lemma worker_save_state_blocked:
  "currentWorkerMutex (inst w) \<noteq> None \<Longrightarrow> worker_save_state g j err w = None"
  by (auto simp: worker_save_state_def prim_defs)

lemma worker_save_state_eq:
  assumes "currentWorkerMutex (inst w) = None"
  shows "worker_save_state g j err w =
    Some (w\<lparr>inst := (inst w)\<lparr>currentContext := None, currentCancelFunc := None,
                              lastRunError := err\<rparr>,
            trace := trace w @ [RunReturned g j err, Acquire g, Write g F_currentContext,
               Write g F_currentCancelFunc, Write g F_lastRunError, Release g]\<rparr>)"
  using assms by (simp add: worker_save_state_def prim_defs Let_def)

lemma worker_close_done_open:
  "chans w c = Some (Chan n False) \<Longrightarrow>
   worker_close_done g c w =
     (Return (), w\<lparr>chans := (chans w)(c \<mapsto> Chan n True), trace := trace w @ [Close g c]\<rparr>)"
  by (simp add: worker_close_done_def prim_defs)

lemma InstallSignalHandlers_eq:
  "InstallSignalHandlers t w =
     w\<lparr>chans := (chans w)(nextAddr w \<mapsto> Chan 1 False),
       nextAddr := nextAddr w + 2,
       goroutines := goroutines w @ [(Suc (nextAddr w), SignalWait (nextAddr w))],
       notify := notify w @ [(SIGTERM, nextAddr w), (SIGINT, nextAddr w)],
       trace := trace w @ [Go t (Suc (nextAddr w))]\<rparr>"
  by (simp add: InstallSignalHandlers_def prim_defs)

lemma signal_handler_blocked:
  "currentWorkerMutex (inst w) \<noteq> None \<Longrightarrow> signal_handler g s w = None"
  by (auto simp: signal_handler_def prim_defs)

lemma signal_handler_cancel:
  assumes "currentWorkerMutex (inst w) = None" and "currentCancelFunc (inst w) = Some (CancelFunc a)"
  shows "signal_handler g s w =
    Some (w\<lparr>cancelled := List.insert a (cancelled w),
            trace := trace w @ [Acquire g, Read g F_currentCancelFunc, Read g F_currentCancelFunc,
               Cancel g a, Release g]\<rparr>)"
  using assms by (simp add: signal_handler_def prim_defs Let_def)

lemma signal_handler_exit:
  assumes "currentWorkerMutex (inst w) = None" and "currentCancelFunc (inst w) = None"
  shows "signal_handler g s w =
    Some (w\<lparr>inst := (inst w)\<lparr>currentWorkerMutex := Some g\<rparr>,
            process := Exited 0,
            trace := trace w @ [Acquire g, Read g F_currentCancelFunc,
               Printf ''Shutting down idle worker after receiving signal: %v'' s, Exit g 0]\<rparr>)"
  using assms by (simp add: signal_handler_def prim_defs Let_def)

lemma signal_handler_fields:
  assumes "signal_handler g s w = Some u"
  shows "inst u = (inst w)\<lparr>currentWorkerMutex := currentWorkerMutex (inst u)\<rparr>"
proof (cases "currentWorkerMutex (inst w) = None")
  case False
  with assms show ?thesis by (simp add: signal_handler_blocked)
next
  case free: True
  show ?thesis
  proof (cases "currentCancelFunc (inst w)")
    case None
    with assms show ?thesis by (auto simp: signal_handler_exit [OF free])
  next
    case (Some cf)
    obtain a where cf: "cf = CancelFunc a" by (cases cf)
    from assms free show ?thesis
      by (auto simp: signal_handler_cancel [OF free Some [unfolded cf]])
  qed
qed

lemmas example_defs = after_def example_instance_def example_admitted_def example_running_def
  example_returned_def example_completed_def example_custom_def example_nil_admitted_def

lemmas eval_rules = NewInstance_eq step_def become_def over_def panicked_def
  CreateWrangler_eq InstallSignalHandlers_eq setAndStartWorker_admit setAndStartWorker_busy
  worker_start_job worker_save_state_eq worker_close_done_open signal_handler_cancel
  signal_handler_exit

lemmas state_defs = Idle_def Running_def Completed_def settled_def three_state_def closed_def
  job_executing_def allocated_def deref_def

section \<open>Histories\<close>

lemma finished_append [simp]: "finished (tr @ es) = finished tr @ finished es"
  by (simp add: finished_def)

lemma closes_append [simp]: "closes (tr @ es) = closes tr @ closes es"
  by (simp add: closes_def)

lemma finished_simps [simp]:
  "finished [] = []"
  "finished (RunReturned g j r # es) = (j, r) # finished es"
  "finished (Acquire t # es) = finished es"
  "finished (Release t # es) = finished es"
  "finished (Read t f # es) = finished es"
  "finished (Write t f # es) = finished es"
  "finished (Go t g # es) = finished es"
  "finished (Infof m # es) = finished es"
  "finished (Printf m s # es) = finished es"
  "finished (CallRun g j c # es) = finished es"
  "finished (Close g a # es) = finished es"
  "finished (Cancel g a # es) = finished es"
  "finished (Exit g n # es) = finished es"
  by (simp_all add: finished_def)

lemma closes_simps [simp]:
  "closes [] = []"
  "closes (Close g a # es) = a # closes es"
  "closes (RunReturned g j r # es) = closes es"
  "closes (Acquire t # es) = closes es"
  "closes (Release t # es) = closes es"
  "closes (Read t f # es) = closes es"
  "closes (Write t f # es) = closes es"
  "closes (Go t g # es) = closes es"
  "closes (Infof m # es) = closes es"
  "closes (Printf m s # es) = closes es"
  "closes (CallRun g j c # es) = closes es"
  "closes (Cancel g a # es) = closes es"
  "closes (Exit g n # es) = closes es"
  by (simp_all add: closes_def)

section \<open>What every schedule preserves\<close>

lemma job_state_frame:
  assumes js: "job_state w"
    and cw: "currentWorker (inst w') = currentWorker (inst w)"
    and cc: "currentContext (inst w') = currentContext (inst w)"
    and cf: "currentCancelFunc (inst w') = currentCancelFunc (inst w)"
    and le: "lastRunError (inst w') = lastRunError (inst w)"
    and fi: "finished (trace w') = finished (trace w)"
    and jg: "job_goroutines w' = job_goroutines w"
    and ch: "\<And>c. chans w c = Some (Chan 0 False) \<Longrightarrow> chans w' c = Some (Chan 0 False)"
  shows "job_state w'"
proof -
  have st: "Idle (inst w') = Idle (inst w)" "Running (inst w') = Running (inst w)"
    "settled w' = settled w"
    by (simp_all add: Idle_def Running_def settled_def Completed_def cw cc cf le fi)
  from js show ?thesis
    unfolding job_state_def st jg cw le
    using ch by blast
qed

lemma job_state_cases [consumes 1, case_names none spawned inrun returned over]:
  assumes "job_state w"
  obtains "currentWorker (inst w) = None" "lastRunError (inst w) = None" "job_goroutines w = []"
  | g j c where "Running (inst w)" "currentWorker (inst w) = Some j"
      "chans w c = Some (Chan 0 False)" "job_goroutines w = [(g, JobSpawned (Some j) c)]"
  | g j c where "Running (inst w)" "currentWorker (inst w) = Some j"
      "chans w c = Some (Chan 0 False)" "job_goroutines w = [(g, JobInRun j c)]"
  | g c where "settled w" "chans w c = Some (Chan 0 False)"
      "job_goroutines w = [(g, JobReturned c)]"
  | "settled w" "job_goroutines w = []"
  using assms unfolding job_state_def by (elim disjE exE conjE) blast+

lemma job_state_none:
  "currentWorker (inst w) = None \<Longrightarrow> lastRunError (inst w) = None \<Longrightarrow> job_goroutines w = []
   \<Longrightarrow> job_state w"
  by (simp add: job_state_def)

lemma job_state_spawned:
  "Running (inst w) \<Longrightarrow> currentWorker (inst w) = Some j \<Longrightarrow> chans w c = Some (Chan 0 False)
   \<Longrightarrow> job_goroutines w = [(g, JobSpawned (Some j) c)] \<Longrightarrow> job_state w"
  unfolding job_state_def by blast

lemma job_state_inrun:
  "Running (inst w) \<Longrightarrow> currentWorker (inst w) = Some j \<Longrightarrow> chans w c = Some (Chan 0 False)
   \<Longrightarrow> job_goroutines w = [(g, JobInRun j c)] \<Longrightarrow> job_state w"
  unfolding job_state_def by blast

lemma job_state_returned:
  "settled w \<Longrightarrow> chans w c = Some (Chan 0 False)
   \<Longrightarrow> job_goroutines w = [(g, JobReturned c)] \<Longrightarrow> job_state w"
  unfolding job_state_def by blast

lemma job_state_over: "settled w \<Longrightarrow> job_goroutines w = [] \<Longrightarrow> job_state w"
  by (simp add: job_state_def)

lemma job_state_member_spawned:
  assumes "job_state w" and "(g, JobSpawned wrk c) \<in> set (job_goroutines w)"
  shows "\<exists>j. wrk = Some j \<and> Running (inst w) \<and> currentWorker (inst w) = Some j
           \<and> chans w c = Some (Chan 0 False)
           \<and> job_goroutines w = [(g, JobSpawned (Some j) c)]"
  using assms by (cases rule: job_state_cases) simp_all

lemma job_state_member_inrun:
  assumes "job_state w" and "(g, JobInRun j c) \<in> set (job_goroutines w)"
  shows "Running (inst w) \<and> currentWorker (inst w) = Some j
           \<and> chans w c = Some (Chan 0 False)
           \<and> job_goroutines w = [(g, JobInRun j c)]"
  using assms by (cases rule: job_state_cases) simp_all

lemma job_state_member_returned:
  assumes "job_state w" and "(g, JobReturned c) \<in> set (job_goroutines w)"
  shows "settled w \<and> chans w c = Some (Chan 0 False)
           \<and> job_goroutines w = [(g, JobReturned c)]"
  using assms by (cases rule: job_state_cases) simp_all

lemma job_goroutines_lookup:
  assumes "map_of (goroutines w) g = Some x" and "is_job x"
  shows "(g, x) \<in> set (job_goroutines w)"
  using assms by (auto simp: job_goroutines_def dest: map_of_SomeD)

lemma job_goroutines_become:
  "job_goroutines (become g old new w) =
     remove1 (g, old) (job_goroutines w) @ (if is_job new then [(g, new)] else [])"
  by (simp add: job_goroutines_def become_def filter_remove1)

lemma job_goroutines_over:
  "job_goroutines (over g old w) = remove1 (g, old) (job_goroutines w)"
  by (simp add: job_goroutines_def over_def filter_remove1)

lemma job_goroutines_trace [simp]:
  "job_goroutines (w\<lparr>trace := tr\<rparr>) = job_goroutines w"
  by (simp add: job_goroutines_def)

lemma closed_frame:
  assumes "chans w' = (chans w)(a \<mapsto> Chan n False)" and "chans w a = None"
  shows "closed w' c = closed w c"
  using assms by (simp add: closed_def)

lemma settled_frame:
  assumes "currentWorker (inst w') = currentWorker (inst w)"
    and "currentContext (inst w') = currentContext (inst w)"
    and "currentCancelFunc (inst w') = currentCancelFunc (inst w)"
    and "lastRunError (inst w') = lastRunError (inst w)"
    and "finished (trace w') = finished (trace w)"
  shows "settled w' = settled w"
  using assms by (simp add: settled_def Completed_def)

lemma coherent_goroutines:
  assumes co: "coherent u"
    and rest: "nextAddr w' = nextAddr u" "chans w' = chans u" "trace w' = trace u"
      "process w' = process u" "inst w' = inst u"
    and js: "job_state w'"
  shows "coherent w'"
proof -
  have st: "settled w' = settled u"
    by (simp add: settled_def rest)
  have cl: "\<And>c. closed w' c = closed u c"
    by (simp add: closed_def rest)
  show ?thesis
    using co js unfolding coherent_def st cl rest by simp
qed

lemma coherent_NewInstance: "coherent (NewInstance ts c lt cdi)"
  by (simp add: NewInstance_eq coherent_def job_state_def closed_def job_goroutines_def)

lemma coherent_MakeWrangler:
  assumes "coherent w"
  shows "coherent (snd (CreateWrangler lg w))"
proof -
  let ?w = "snd (CreateWrangler lg w)"
  have js: "job_state ?w"
    using assms by (auto simp: coherent_def CreateWrangler_eq job_goroutines_def intro: job_state_frame)
  have st: "settled ?w = settled w"
    by (rule settled_frame) (simp_all add: CreateWrangler_eq)
  have cl: "\<And>c. closed ?w c = closed w c"
    by (simp add: closed_def CreateWrangler_eq)
  show ?thesis
    using assms js unfolding coherent_def st cl
    by (simp add: CreateWrangler_eq)
qed

lemma coherent_Install:
  assumes "coherent w"
  shows "coherent (InstallSignalHandlers t w)"
proof -
  let ?w = "InstallSignalHandlers t w"
  have fresh: "chans w (nextAddr w) = None"
    using assms by (simp add: coherent_def)
  have js: "job_state ?w"
  proof (rule job_state_frame)
    show "job_state w" using assms by (simp add: coherent_def)
    show "\<And>c. chans w c = Some (Chan 0 False) \<Longrightarrow> chans ?w c = Some (Chan 0 False)"
      using fresh by (auto simp: InstallSignalHandlers_eq)
  qed (simp_all add: InstallSignalHandlers_eq job_goroutines_def)
  have st: "settled ?w = settled w"
    by (rule settled_frame) (simp_all add: InstallSignalHandlers_eq)
  have cl: "\<And>c. closed ?w c = closed w c"
    by (rule closed_frame [of _ _ "nextAddr w" 1]) (simp_all add: InstallSignalHandlers_eq fresh)
  show ?thesis
    using assms js unfolding coherent_def st cl
    by (simp add: InstallSignalHandlers_eq)
qed

lemma coherent_busy:
  assumes "coherent w"
    and ev: "finished es = []" "closes es = []"
  shows "coherent (w\<lparr>trace := trace w @ es\<rparr>)"
proof -
  let ?w = "w\<lparr>trace := trace w @ es\<rparr>"
  have js: "job_state ?w"
    by (rule job_state_frame [of w]) (use assms in \<open>simp_all add: coherent_def\<close>)
  have st: "settled ?w = settled w"
    by (rule settled_frame) (simp_all add: ev)
  have cl: "\<And>c. closed ?w c = closed w c"
    by (simp add: closed_def)
  show ?thesis
    using assms js unfolding coherent_def st cl by simp
qed

lemma coherent_Admit:
  assumes co: "coherent w"
    and ex: "exec (Admit t wrk p) w = Some w'"
    and np: "process w' \<noteq> Panicked"
  shows "coherent w'"
proof (cases "currentWorkerMutex (inst w) = None")
  case False
  then show ?thesis using ex by (simp add: setAndStartWorker_blocked)
next
  case free: True
  show ?thesis
  proof (cases "currentWorker (inst w) = None")
    case False
    with free ex have "w' = w\<lparr>trace := trace w @ [Acquire t, Read t F_currentWorker, Read t F_currentWorker, Release t]\<rparr>"
      by (simp add: setAndStartWorker_busy)
    then show ?thesis using co by (simp add: coherent_busy)
  next
    case none: True
    show ?thesis
    proof (cases "deref w p")
      case None
      with free none ex np show ?thesis
        by (auto simp: setAndStartWorker_panic panicked_def)
    next
      case (Some x)
      then obtain a where p: "p = Some a" and x: "wranglers w a = Some x"
        by (cases p) (simp_all add: deref_def)
      note eq = setAndStartWorker_admit [OF free none x]
      from ex have w': "w' = snd (the (setAndStartWorker t wrk (Some a) w))"
        by (simp add: p eq)
      from co have js: "job_state w" by (simp add: coherent_def)
      from js none have nojobs: "job_goroutines w = []"
        by (cases rule: job_state_cases) (simp_all add: Running_def settled_def Completed_def)
      have noclosed: "\<And>c. \<not> closed w c"
        using co none by (auto simp: coherent_def settled_def Completed_def)
      have fresh: "chans w (Suc (Suc (nextAddr w))) = None"
        using co by (simp add: coherent_def)
      have cl: "\<And>c. closed w' c = closed w c"
        by (rule closed_frame [of _ _ "nextAddr w + 2" 0]) (simp_all add: w' eq fresh)
      have js': "job_state w'"
      proof (cases wrk)
        case None
        have "job_goroutines w' = []"
          using nojobs by (simp add: w' eq job_goroutines_def None)
        then show ?thesis
          by (rule job_state_none [rotated 2]) (simp_all add: w' eq None)
      next
        case (Some j)
        have "job_goroutines w' = [(nextAddr w + 3, JobSpawned (Some j) (nextAddr w + 2))]"
          using nojobs by (simp add: w' eq job_goroutines_def Some)
        then show ?thesis
          by (rule job_state_spawned [rotated 3]) (simp_all add: w' eq Running_def Some)
      qed
      show ?thesis
        using co js' noclosed unfolding coherent_def cl
        by (simp add: w' eq)
    qed
  qed
qed

lemma coherent_Start:
  assumes co: "coherent w"
    and ex: "exec (Start g) w = Some w'"
    and np: "process w' \<noteq> Panicked"
  shows "coherent w'"
proof -
  from ex obtain wrk c where look: "map_of (goroutines w) g = Some (JobSpawned wrk c)"
    by (auto split: option.splits goroutine.splits)
  have "wrk \<noteq> None"
  proof
    assume "wrk = None"
    with ex look have "process w' = Panicked"
      by (auto simp: worker_start_nil panicked_def)
    with np show False by simp
  qed
  then obtain j where wrk: "wrk = Some j" by auto
  from look have mem: "(g, JobSpawned (Some j) c) \<in> set (job_goroutines w)"
    by (simp add: job_goroutines_lookup wrk)
  from co have js: "job_state w" by (simp add: coherent_def)
  from job_state_member_spawned [OF js mem]
  have run: "Running (inst w)"
    and cw: "currentWorker (inst w) = Some j" and ch: "chans w c = Some (Chan 0 False)"
    and jg: "job_goroutines w = [(g, JobSpawned (Some j) c)]"
    by simp_all
  let ?u = "w\<lparr>trace := trace w @ [Infof ''Starting worker...'', Read g F_currentContext,
                           CallRun g j (currentContext (inst w))]\<rparr>"
  from ex look wrk have w': "w' = become g (JobSpawned (Some j) c) (JobInRun j c) ?u"
    by (simp add: worker_start_job)
  have cu: "coherent ?u"
    using co by (simp add: coherent_busy)
  have rest: "nextAddr w' = nextAddr ?u" "chans w' = chans ?u" "trace w' = trace ?u"
    "process w' = process ?u" "inst w' = inst ?u"
    by (simp_all add: w' become_def)
  have "job_goroutines w' = [(g, JobInRun j c)]"
    by (simp add: w' job_goroutines_become jg)
  then have js': "job_state w'"
    by (rule job_state_inrun [rotated 3]) (use run cw ch in \<open>simp_all add: rest\<close>)
  show ?thesis
    by (rule coherent_goroutines [OF cu rest js'])
qed

lemma coherent_Finish:
  assumes co: "coherent w"
    and al: "process w = Alive"
    and ex: "exec (Finish g err) w = Some w'"
  shows "coherent w'"
proof -
  from ex obtain j c where look: "map_of (goroutines w) g = Some (JobInRun j c)"
    by (auto split: option.splits goroutine.splits)
  then have mem: "(g, JobInRun j c) \<in> set (job_goroutines w)"
    by (simp add: job_goroutines_lookup)
  from co have js: "job_state w" by (simp add: coherent_def)
  from job_state_member_inrun [OF js mem]
  have run: "Running (inst w)" and cw: "currentWorker (inst w) = Some j"
    and ch: "chans w c = Some (Chan 0 False)" and jg: "job_goroutines w = [(g, JobInRun j c)]"
    by simp_all
  from co al have free: "currentWorkerMutex (inst w) = None"
    by (simp add: coherent_def)
  let ?u = "w\<lparr>inst := (inst w)\<lparr>currentContext := None, currentCancelFunc := None,
                              lastRunError := err\<rparr>,
            trace := trace w @ [RunReturned g j err, Acquire g, Write g F_currentContext,
               Write g F_currentCancelFunc, Write g F_lastRunError, Release g]\<rparr>"
  from ex look have w': "w' = become g (JobInRun j c) (JobReturned c) ?u"
    by (simp add: worker_save_state_eq [OF free])
  have rest: "nextAddr w' = nextAddr w" "chans w' = chans w" "process w' = process w"
    by (simp_all add: w' become_def)
  have st: "settled w'"
    using cw by (simp add: settled_def Completed_def w' become_def)
  have cl: "\<And>c. closed w' c = closed w c"
    by (simp add: closed_def rest)
  have tr: "closes (trace w') = closes (trace w)"
    by (simp add: w' become_def)
  have mu: "currentWorkerMutex (inst w') = None"
    using free by (simp add: w' become_def)
  have "job_goroutines ?u = job_goroutines w"
    by (simp add: job_goroutines_def)
  then have jg': "job_goroutines w' = [(g, JobReturned c)]"
    by (simp add: w' job_goroutines_become jg)
  have js': "job_state w'"
    by (rule job_state_returned [OF st _ jg']) (simp add: rest ch)
  show ?thesis
    using co js' st mu unfolding coherent_def cl tr rest by simp
qed

lemma coherent_CloseDone:
  assumes co: "coherent w"
    and ex: "exec (CloseDone g) w = Some w'"
    and np: "process w' \<noteq> Panicked"
  shows "coherent w'"
proof -
  from ex obtain c where look: "map_of (goroutines w) g = Some (JobReturned c)"
    by (auto split: option.splits goroutine.splits)
  then have mem: "(g, JobReturned c) \<in> set (job_goroutines w)"
    by (simp add: job_goroutines_lookup)
  from co have js: "job_state w" by (simp add: coherent_def)
  from job_state_member_returned [OF js mem]
  have st: "settled w" and ch: "chans w c = Some (Chan 0 False)"
    and jg: "job_goroutines w = [(g, JobReturned c)]"
    by simp_all
  let ?u = "w\<lparr>chans := (chans w)(c \<mapsto> Chan 0 True), trace := trace w @ [Close g c]\<rparr>"
  from ex look have w': "w' = over g (JobReturned c) ?u"
    by (simp add: worker_close_done_open [OF ch])
  have rest: "nextAddr w' = nextAddr w" "process w' = process w" "inst w' = inst w"
    "chans w' = (chans w)(c \<mapsto> Chan 0 True)"
    by (simp_all add: w' over_def)
  have st': "settled w'"
    using st by (simp add: settled_def w' over_def)
  have cl: "\<And>a. closed w' a = (a = c \<or> closed w a)"
    by (simp add: closed_def rest)
  have nc: "\<not> closed w c"
    using ch by (simp add: closed_def)
  have tr: "closes (trace w') = closes (trace w) @ [c]"
    by (simp add: w' over_def)
  have "job_goroutines ?u = job_goroutines w"
    by (simp add: job_goroutines_def)
  then have jg': "job_goroutines w' = []"
    by (simp add: w' job_goroutines_over jg)
  have js': "job_state w'"
    by (rule job_state_over [OF st' jg'])
  have fresh: "\<And>a. nextAddr w \<le> a \<Longrightarrow> a \<noteq> c"
    using co ch by (auto simp: coherent_def)
  show ?thesis
    using co js' st' nc fresh unfolding coherent_def cl tr rest by auto
qed

lemma coherent_Signal:
  assumes co: "coherent w"
    and al: "process w = Alive"
    and ex: "exec (Signal g s) w = Some w'"
  shows "coherent w'"
proof -
  from ex obtain c where look: "map_of (goroutines w) g = Some (SignalWait c)"
    by (auto split: option.splits goroutine.splits)
  from co al have free: "currentWorkerMutex (inst w) = None"
    by (simp add: coherent_def)
  from co have js: "job_state w" by (simp add: coherent_def)
  obtain u where u: "signal_handler g s w = Some u" and w': "w' = over g (SignalWait c) u"
    using ex look by (auto split: if_splits)
  have jg: "job_goroutines w' = job_goroutines u"
    by (simp add: w' job_goroutines_over) (simp add: job_goroutines_def remove1_idem)
  have rest: "nextAddr w' = nextAddr u" "chans w' = chans u" "trace w' = trace u"
    "process w' = process u" "inst w' = inst u"
    by (simp_all add: w' over_def)
  have cu: "coherent u"
  proof (cases "currentCancelFunc (inst w)")
    case None
    from u have u': "u = w\<lparr>inst := (inst w)\<lparr>currentWorkerMutex := Some g\<rparr>,
            process := Exited 0,
            trace := trace w @ [Acquire g, Read g F_currentCancelFunc,
               Printf ''Shutting down idle worker after receiving signal: %v'' s, Exit g 0]\<rparr>"
      by (simp add: signal_handler_exit [OF free None])
    have jsu: "job_state u"
      by (rule job_state_frame [OF js]) (simp_all add: u' job_goroutines_def)
    have st: "settled u = settled w"
      by (rule settled_frame) (simp_all add: u')
    have cl: "\<And>c. closed u c = closed w c"
      by (simp add: closed_def u')
    show ?thesis
      using co jsu unfolding coherent_def st cl by (simp add: u')
  next
    case (Some cf)
    obtain a where cf: "cf = CancelFunc a" by (cases cf)
    from u have u': "u = w\<lparr>cancelled := List.insert a (cancelled w),
            trace := trace w @ [Acquire g, Read g F_currentCancelFunc, Read g F_currentCancelFunc,
               Cancel g a, Release g]\<rparr>"
      using signal_handler_cancel [OF free Some [unfolded cf], of g s] by simp
    have jsu: "job_state u"
      by (rule job_state_frame [OF js]) (simp_all add: u' job_goroutines_def)
    have st: "settled u = settled w"
      by (rule settled_frame) (simp_all add: u')
    have cl: "\<And>c. closed u c = closed w c"
      by (simp add: closed_def u')
    show ?thesis
      using co jsu unfolding coherent_def st cl by (simp add: u')
  qed
  have js': "job_state w'"
    by (rule job_state_frame [of u]) (use cu in \<open>simp_all add: coherent_def rest jg\<close>)
  show ?thesis
    by (rule coherent_goroutines [OF cu rest js'])
qed

lemma step_coherent:
  assumes "coherent w" and "step a w = Some w'" and "process w' \<noteq> Panicked"
  shows "coherent w'"
proof -
  from assms(2) have al: "process w = Alive" and ex: "exec a w = Some w'"
    by (simp_all add: step_def split: if_splits)
  show ?thesis
  proof (cases a)
    case (MakeWrangler lg)
    with ex assms(1) show ?thesis by (auto simp: coherent_MakeWrangler)
  next
    case (Install t)
    with ex assms(1) show ?thesis by (auto simp: coherent_Install)
  next
    case (Admit t j p)
    with ex assms show ?thesis by (simp add: coherent_Admit)
  next
    case (Start g)
    with ex assms show ?thesis by (simp add: coherent_Start)
  next
    case (Finish g err)
    with ex al assms show ?thesis by (simp add: coherent_Finish)
  next
    case (CloseDone g)
    with ex assms show ?thesis by (simp add: coherent_CloseDone)
  next
    case (Signal g s)
    with ex al assms show ?thesis by (simp add: coherent_Signal)
  qed
qed

lemma run_alive:
  assumes "run as w = Some w'" and "process w' \<noteq> Panicked"
  shows "process w \<noteq> Panicked"
  using assms by (cases as) (auto simp: step_def split: if_splits option.splits)

lemma run_coherent:
  assumes "coherent w" and "run as w = Some w'" and "process w' \<noteq> Panicked"
  shows "coherent w'"
  using assms
proof (induction as arbitrary: w)
  case Nil
  then show ?case by simp
next
  case (Cons a as)
  from Cons.prems(2) obtain u where u: "step a w = Some u" and r: "run as u = Some w'"
    by (auto split: option.splits)
  from r Cons.prems(3) have "process u \<noteq> Panicked" by (rule run_alive)
  with Cons.prems(1) u have "coherent u" by (rule step_coherent)
  from this r Cons.prems(3) show ?case by (rule Cons.IH)
qed

text \<open>
  The panics a schedule can end in are that of an admission on a wrangler that is not there
  and that of a goroutine that calls \<open>Run\<close> on the nil worker it captured: no channel is
  closed twice.
\<close>

lemma step_panic:
  assumes co: "coherent w" and st: "step a w = Some w'" and pa: "process w' = Panicked"
  shows "(\<exists>t wrk p. a = Admit t wrk p \<and> deref w p = None)
    \<or> (\<exists>g c. a = Start g \<and> map_of (goroutines w) g = Some (JobSpawned None c))"
proof -
  from st have al: "process w = Alive" and ex: "exec a w = Some w'"
    by (simp_all add: step_def split: if_splits)
  from co al have free: "currentWorkerMutex (inst w) = None"
    by (simp add: coherent_def)
  from co have js: "job_state w" by (simp add: coherent_def)
  show ?thesis
  proof (cases a)
    case (MakeWrangler lg)
    with ex al pa show ?thesis by (auto simp: CreateWrangler_eq)
  next
    case (Install t)
    with ex al pa show ?thesis by (auto simp: InstallSignalHandlers_eq)
  next
    case (Admit t j p)
    show ?thesis
    proof (cases "deref w p")
      case None
      with Admit show ?thesis by simp
    next
      case (Some x)
      then obtain b where p: "p = Some b" and x: "wranglers w b = Some x"
        by (cases p) (simp_all add: deref_def)
      show ?thesis
      proof (cases "currentWorker (inst w) = None")
        case True
        with ex al pa show ?thesis
          by (auto simp: Admit p setAndStartWorker_admit [OF free True x])
      next
        case False
        with ex al pa show ?thesis
          by (auto simp: Admit setAndStartWorker_busy [OF free False])
      qed
    qed
  next
    case (Start g)
    with ex obtain wrk c where look: "map_of (goroutines w) g = Some (JobSpawned wrk c)"
      by (auto split: option.splits goroutine.splits)
    show ?thesis
    proof (cases wrk)
      case None
      with look Start show ?thesis by simp
    next
      case (Some j)
      with ex look al pa show ?thesis
        by (auto simp: Start worker_start_job become_def)
    qed
  next
    case (Finish g err)
    with ex al pa show ?thesis
      by (auto simp: worker_save_state_eq [OF free] become_def
          split: option.splits goroutine.splits)
  next
    case (CloseDone g)
    with ex obtain c where look: "map_of (goroutines w) g = Some (JobReturned c)"
      by (auto split: option.splits goroutine.splits)
    then have "(g, JobReturned c) \<in> set (job_goroutines w)"
      by (simp add: job_goroutines_lookup)
    from job_state_member_returned [OF js this]
    have "chans w c = Some (Chan 0 False)" by simp
    with ex look al pa show ?thesis
      by (auto simp: CloseDone worker_close_done_open over_def)
  next
    case (Signal g s)
    with ex obtain c u where u: "signal_handler g s w = Some u" and w': "w' = over g (SignalWait c) u"
      by (auto split: option.splits goroutine.splits if_splits)
    have "process u \<noteq> Panicked"
    proof (cases "currentCancelFunc (inst w)")
      case None
      with u show ?thesis by (auto simp: signal_handler_exit [OF free])
    next
      case (Some cf)
      obtain b where cf: "cf = CancelFunc b" by (cases cf)
      from u al show ?thesis
        by (auto simp: signal_handler_cancel [OF free Some [unfolded cf]])
    qed
    with pa show ?thesis by (simp add: w' over_def)
  qed
qed

lemma run_panic:
  assumes "coherent w" and "run as w = Some w'" and "process w' = Panicked"
    and "process w \<noteq> Panicked"
  shows "as \<noteq> [] \<and> ((\<exists>t wrk p. last as = Admit t wrk p) \<or> (\<exists>g. last as = Start g))"
  using assms
proof (induction as arbitrary: w)
  case Nil
  then show ?case by simp
next
  case (Cons a as)
  from Cons.prems(2) obtain u where u: "step a w = Some u" and r: "run as u = Some w'"
    by (auto split: option.splits)
  show ?case
  proof (cases "process u = Panicked")
    case True
    from r True have "as = []"
      by (cases as) (auto simp: step_def split: option.splits)
    moreover from step_panic [OF Cons.prems(1) u True]
    have "(\<exists>t wrk p. a = Admit t wrk p) \<or> (\<exists>g. a = Start g)"
      by blast
    ultimately show ?thesis by simp
  next
    case False
    with Cons.prems(1) u have "coherent u" by (rule step_coherent)
    from Cons.IH [OF this r Cons.prems(3) False] show ?thesis by auto
  qed
qed

lemma panic_only_by_nil_argument:
  assumes "run as (NewInstance ts c lt cdi) = Some w" and "process w = Panicked"
  shows "as \<noteq> [] \<and> ((\<exists>t wrk p. last as = Admit t wrk p) \<or> (\<exists>g. last as = Start g))"
  using coherent_NewInstance assms
  by (rule run_panic) (simp add: NewInstance_eq)







lemma admitted_from_nil:
  assumes "setAndStartWorker t wrk p w = Some (Return (Some d, e), w')"
  shows "currentWorker (inst w) = None"
proof (rule ccontr)
  assume busy: "currentWorker (inst w) \<noteq> None"
  show False
  proof (cases "currentWorkerMutex (inst w) = None")
    case True
    from assms show False by (simp add: setAndStartWorker_busy [OF True busy])
  next
    case False
    with assms show False by (simp add: setAndStartWorker_blocked)
  qed
qed

text \<open>
  The admitted job and its channel: every step without a panic keeps \<open>awaits\<close>, the
  admission of the job establishes it, and with it the goroutine of the job, where it is
  after \<open>Run\<close> or before \<open>close\<close>, can take its next step.
\<close>

lemma awaits_frame:
  assumes "awaits g j d w"
    and "currentWorker (inst w') = currentWorker (inst w)"
    and "closed w' d = closed w d"
    and "job_goroutines w' = job_goroutines w"
  shows "awaits g j d w'"
  using assms by (simp add: awaits_def)

lemma awaits_member:
  assumes "awaits g j d w" and "(g', x) \<in> set (job_goroutines w)"
  shows "g' = g \<and> \<not> closed w d \<and> job_goroutines w = [(g, x)]
    \<and> (x = JobSpawned (Some j) d \<or> x = JobInRun j d \<or> x = JobReturned d)"
  using assms unfolding awaits_def by (elim conjE disjE) simp_all

lemma step_awaits:
  assumes aw: "awaits g j d w" and co: "coherent w" and st: "step a w = Some w'"
    and np: "process w' \<noteq> Panicked"
  shows "awaits g j d w'"
proof -
  from st have al: "process w = Alive" and ex: "exec a w = Some w'"
    by (simp_all add: step_def split: if_splits)
  from co al have free: "currentWorkerMutex (inst w) = None"
    by (simp add: coherent_def)
  from co have js: "job_state w" by (simp add: coherent_def)
  from aw have cw: "currentWorker (inst w) = Some j" by (simp add: awaits_def)
  show ?thesis
  proof (cases a)
    case (MakeWrangler lg)
    with ex have w': "w' = snd (CreateWrangler lg w)" by simp
    show ?thesis
      by (rule awaits_frame [OF aw]) (simp_all add: w' CreateWrangler_eq closed_def job_goroutines_def)
  next
    case (Install t)
    with ex have w': "w' = InstallSignalHandlers t w" by simp
    have fresh: "chans w (nextAddr w) = None"
      using co by (simp add: coherent_def)
    have cl: "closed w' d = closed w d"
      by (rule closed_frame [of _ _ "nextAddr w" 1]) (simp_all add: w' InstallSignalHandlers_eq fresh)
    show ?thesis
      by (rule awaits_frame [OF aw _ cl]) (simp_all add: w' InstallSignalHandlers_eq job_goroutines_def)
  next
    case (Admit t wrk p)
    from cw have busy: "currentWorker (inst w) \<noteq> None" by simp
    from ex have w': "w' = w\<lparr>trace := trace w @ [Acquire t, Read t F_currentWorker,
          Read t F_currentWorker, Release t]\<rparr>"
      by (simp add: Admit setAndStartWorker_busy [OF free busy])
    show ?thesis
      by (rule awaits_frame [OF aw]) (simp_all add: w' closed_def)
  next
    case (Start g')
    with ex obtain wrk c where look: "map_of (goroutines w) g' = Some (JobSpawned wrk c)"
      by (auto split: option.splits goroutine.splits)
    have "wrk \<noteq> None"
    proof
      assume "wrk = None"
      with ex look Start have "process w' = Panicked"
        by (auto simp: worker_start_nil panicked_def)
      with np show False by simp
    qed
    then obtain j' where wrk: "wrk = Some j'" by auto
    from look have mem: "(g', JobSpawned (Some j') c) \<in> set (job_goroutines w)"
      by (simp add: job_goroutines_lookup wrk)
    from awaits_member [OF aw mem]
    have eq: "g' = g" "j' = j" "c = d" and nc: "\<not> closed w d"
      and jg: "job_goroutines w = [(g, JobSpawned (Some j) d)]"
      by auto
    let ?u = "w\<lparr>trace := trace w @ [Infof ''Starting worker...'', Read g F_currentContext,
                           CallRun g j (currentContext (inst w))]\<rparr>"
    from ex look have w': "w' = become g (JobSpawned (Some j) d) (JobInRun j d) ?u"
      by (simp add: Start wrk eq worker_start_job)
    have "job_goroutines w' = [(g, JobInRun j d)]"
      by (simp add: w' job_goroutines_become jg)
    moreover have "closed w' d = closed w d" "currentWorker (inst w') = Some j"
      using cw by (simp_all add: w' become_def closed_def)
    ultimately show ?thesis using nc by (simp add: awaits_def)
  next
    case (Finish g' err)
    with ex obtain j' c where look: "map_of (goroutines w) g' = Some (JobInRun j' c)"
      by (auto split: option.splits goroutine.splits)
    then have mem: "(g', JobInRun j' c) \<in> set (job_goroutines w)"
      by (simp add: job_goroutines_lookup)
    from awaits_member [OF aw mem]
    have eq: "g' = g" "j' = j" "c = d" and nc: "\<not> closed w d"
      and jg: "job_goroutines w = [(g, JobInRun j d)]"
      by auto
    let ?u = "w\<lparr>inst := (inst w)\<lparr>currentContext := None, currentCancelFunc := None,
                              lastRunError := err\<rparr>,
            trace := trace w @ [RunReturned g j err, Acquire g, Write g F_currentContext,
               Write g F_currentCancelFunc, Write g F_lastRunError, Release g]\<rparr>"
    from ex look have w': "w' = become g (JobInRun j d) (JobReturned d) ?u"
      by (simp add: Finish eq worker_save_state_eq [OF free])
    have "job_goroutines ?u = job_goroutines w"
      by (simp add: job_goroutines_def)
    then have "job_goroutines w' = [(g, JobReturned d)]"
      by (simp add: w' job_goroutines_become jg)
    moreover have "closed w' d = closed w d" "currentWorker (inst w') = Some j"
      using cw by (simp_all add: w' become_def closed_def)
    ultimately show ?thesis using nc by (simp add: awaits_def)
  next
    case (CloseDone g')
    with ex obtain c where look: "map_of (goroutines w) g' = Some (JobReturned c)"
      by (auto split: option.splits goroutine.splits)
    then have mem: "(g', JobReturned c) \<in> set (job_goroutines w)"
      by (simp add: job_goroutines_lookup)
    from awaits_member [OF aw mem]
    have eq: "g' = g" "c = d" and jg: "job_goroutines w = [(g, JobReturned d)]"
      by auto
    from job_state_member_returned [OF js mem]
    have ch: "chans w d = Some (Chan 0 False)" by (simp add: eq)
    let ?u = "w\<lparr>chans := (chans w)(d \<mapsto> Chan 0 True), trace := trace w @ [Close g d]\<rparr>"
    from ex look have w': "w' = over g (JobReturned d) ?u"
      by (simp add: CloseDone eq worker_close_done_open [OF ch])
    have "job_goroutines ?u = job_goroutines w"
      by (simp add: job_goroutines_def)
    then have "job_goroutines w' = []"
      by (simp add: w' job_goroutines_over jg)
    moreover have "closed w' d" "currentWorker (inst w') = Some j"
      using cw by (simp_all add: w' over_def closed_def)
    ultimately show ?thesis by (simp add: awaits_def)
  next
    case (Signal g' s)
    with ex obtain c u where look: "map_of (goroutines w) g' = Some (SignalWait c)"
      and u: "signal_handler g' s w = Some u" and w': "w' = over g' (SignalWait c) u"
      by (auto split: option.splits goroutine.splits if_splits)
    have jg: "job_goroutines w' = job_goroutines u"
      by (simp add: w' job_goroutines_over) (simp add: job_goroutines_def remove1_idem)
    have f: "inst u = (inst w)\<lparr>currentWorkerMutex := currentWorkerMutex (inst u)\<rparr>"
      by (rule signal_handler_fields [OF u])
    have gu: "goroutines u = goroutines w \<and> chans u = chans w"
    proof (cases "currentCancelFunc (inst w)")
      case None
      with u show ?thesis by (auto simp: signal_handler_exit [OF free])
    next
      case (Some cf)
      obtain b where cf: "cf = CancelFunc b" by (cases cf)
      from u show ?thesis
        by (auto simp: signal_handler_cancel [OF free Some [unfolded cf]])
    qed
    have "currentWorker (inst w') = currentWorker (inst w)"
      using arg_cong [OF f, of currentWorker] by (simp add: w' over_def)
    moreover have "closed w' d = closed w d"
      using gu by (simp add: w' over_def closed_def)
    moreover have "job_goroutines w' = job_goroutines w"
      unfolding jg using gu by (simp add: job_goroutines_def)
    ultimately show ?thesis by (rule awaits_frame [OF aw])
  qed
qed

lemma run_awaits:
  assumes "awaits g j d w" and "coherent w" and "run as w = Some w'"
    and "process w' \<noteq> Panicked"
  shows "awaits g j d w'"
  using assms
proof (induction as arbitrary: w)
  case Nil
  then show ?case by simp
next
  case (Cons a as)
  from Cons.prems(3) obtain u where u: "step a w = Some u" and r: "run as u = Some w'"
    by (auto split: option.splits)
  from r Cons.prems(4) have np: "process u \<noteq> Panicked" by (rule run_alive)
  from Cons.prems(1,2) u np have "awaits g j d u" by (rule step_awaits)
  moreover from Cons.prems(2) u np have "coherent u" by (rule step_coherent)
  ultimately show ?case using r Cons.prems(4) by (rule Cons.IH)
qed

text \<open>What a successful admission of a job returns and starts.\<close>

lemma admission_awaits:
  assumes co: "coherent w" and al: "process w = Alive"
    and ad: "setAndStartWorker t (Some j) p w = Some (Return (Some d, e), w')"
  shows "e = None" and "d = nextAddr w + 2" and "chans w' d = Some (Chan 0 False)"
    and "goroutines w' = goroutines w @ [(nextAddr w + 3, JobSpawned (Some j) d)]"
    and "awaits (nextAddr w + 3) j d w'" and "coherent w'"
proof -
  from co al have free: "currentWorkerMutex (inst w) = None"
    by (simp add: coherent_def)
  from ad have none: "currentWorker (inst w) = None"
    by (rule admitted_from_nil)
  have "deref w p \<noteq> None"
  proof
    assume "deref w p = None"
    from ad show False
      by (simp add: setAndStartWorker_panic [OF free none \<open>deref w p = None\<close>])
  qed
  then obtain a x where p: "p = Some a" and x: "wranglers w a = Some x"
    by (cases p) (auto simp: deref_def)
  note eq = setAndStartWorker_admit [OF free none x]
  from ad show e: "e = None" and d: "d = nextAddr w + 2"
    by (simp_all add: p eq)
  from ad have w': "w' = snd (the (setAndStartWorker t (Some j) (Some a) w))"
    by (simp add: p)
  show ch: "chans w' d = Some (Chan 0 False)"
    by (simp add: w' eq d)
  show "goroutines w' = goroutines w @ [(nextAddr w + 3, JobSpawned (Some j) d)]"
    by (simp add: w' eq d)
  from co have js: "job_state w" by (simp add: coherent_def)
  from js none have nojobs: "job_goroutines w = []"
    by (cases rule: job_state_cases) (simp_all add: Running_def settled_def Completed_def)
  have "job_goroutines w' = [(nextAddr w + 3, JobSpawned (Some j) d)]"
    using nojobs by (simp add: w' eq d job_goroutines_def)
  moreover have "\<not> closed w' d"
    using ch by (simp add: closed_def)
  moreover have "currentWorker (inst w') = Some j"
    by (simp add: w' eq)
  ultimately show "awaits (nextAddr w + 3) j d w'"
    by (simp add: awaits_def)
  have "exec (Admit t (Some j) p) w = Some w'"
    using ad by simp
  moreover have "process w' \<noteq> Panicked"
    using al by (simp add: w' eq)
  ultimately show "coherent w'"
    by (rule coherent_Admit [OF co])
qed

lemma awaits_save:
  assumes aw: "awaits g j d w" and co: "coherent w" and al: "process w = Alive"
    and look: "map_of (goroutines w) g' = Some (JobInRun j' c)"
  shows "g' = g \<and> j' = j \<and> c = d \<and> \<not> closed w d
    \<and> (\<exists>u. step (Finish g err) w = Some u \<and> process u = Alive \<and> \<not> closed u d \<and> settled u
          \<and> lastRunError (inst u) = err \<and> currentContext (inst u) = None
          \<and> currentCancelFunc (inst u) = None \<and> currentWorker (inst u) = Some j
          \<and> job_goroutines u = [(g, JobReturned d)]
          \<and> trace u = trace w @ [RunReturned g j err, Acquire g, Write g F_currentContext,
               Write g F_currentCancelFunc, Write g F_lastRunError, Release g])"
proof -
  from look have mem: "(g', JobInRun j' c) \<in> set (job_goroutines w)"
    by (simp add: job_goroutines_lookup)
  from awaits_member [OF aw mem]
  have eq: "g' = g" "j' = j" "c = d" and nc: "\<not> closed w d"
    and jg: "job_goroutines w = [(g, JobInRun j d)]"
    by auto
  from co al have free: "currentWorkerMutex (inst w) = None"
    by (simp add: coherent_def)
  let ?u = "w\<lparr>inst := (inst w)\<lparr>currentContext := None, currentCancelFunc := None,
                              lastRunError := err\<rparr>,
            trace := trace w @ [RunReturned g j err, Acquire g, Write g F_currentContext,
               Write g F_currentCancelFunc, Write g F_lastRunError, Release g]\<rparr>"
  let ?v = "become g (JobInRun j d) (JobReturned d) ?u"
  from look have st: "step (Finish g err) w = Some ?v"
    by (simp add: step_def al eq worker_save_state_eq [OF free])
  have pv: "process ?v = Alive"
    using al by (simp add: become_def)
  then have np: "process ?v \<noteq> Panicked" by simp
  from aw co st np have av: "awaits g j d ?v" by (rule step_awaits)
  from co st np have cv: "coherent ?v" by (rule step_coherent)
  have fin: "finished (trace ?v) \<noteq> []"
    by (simp add: become_def)
  have ncv: "\<not> closed ?v d"
    using nc by (simp add: become_def closed_def)
  have "job_goroutines ?u = job_goroutines w"
    by (simp add: job_goroutines_def)
  then have jv: "job_goroutines ?v = [(g, JobReturned d)]"
    by (simp add: job_goroutines_become jg)
  then have "(g, JobReturned d) \<in> set (job_goroutines ?v)" by simp
  with cv have sv: "settled ?v"
    using job_state_member_returned [of ?v g d] by (simp add: coherent_def)
  have flds: "lastRunError (inst ?v) = err" "currentContext (inst ?v) = None"
    "currentCancelFunc (inst ?v) = None"
    "trace ?v = trace w @ [RunReturned g j err, Acquire g, Write g F_currentContext,
               Write g F_currentCancelFunc, Write g F_lastRunError, Release g]"
    by (simp_all add: become_def)
  from av have cwv: "currentWorker (inst ?v) = Some j" by (simp add: awaits_def)
  from eq nc st pv ncv sv flds cwv jv show ?thesis by blast
qed

lemma awaits_close:
  assumes aw: "awaits g j d w" and co: "coherent w"
    and look: "map_of (goroutines w) g' = Some (JobReturned c)"
  shows "g' = g \<and> c = d \<and> \<not> closed w d \<and> settled w
    \<and> (process w = Alive \<longrightarrow>
         (\<exists>u. step (CloseDone g) w = Some u \<and> process u = Alive \<and> closed u d
            \<and> inst u = inst w \<and> trace u = trace w @ [Close g d] \<and> job_goroutines u = []))"
proof -
  from look have mem: "(g', JobReturned c) \<in> set (job_goroutines w)"
    by (simp add: job_goroutines_lookup)
  from awaits_member [OF aw mem]
  have eq: "g' = g" "c = d" and nc: "\<not> closed w d"
    and jg: "job_goroutines w = [(g, JobReturned d)]"
    by auto
  from co have js: "job_state w" by (simp add: coherent_def)
  from job_state_member_returned [OF js mem]
  have se: "settled w" and ch: "chans w d = Some (Chan 0 False)" by (simp_all add: eq)
  let ?u = "w\<lparr>chans := (chans w)(d \<mapsto> Chan 0 True), trace := trace w @ [Close g d]\<rparr>"
  let ?v = "over g (JobReturned d) ?u"
  have "step (CloseDone g) w = Some ?v \<and> process ?v = Alive \<and> closed ?v d
            \<and> inst ?v = inst w \<and> trace ?v = trace w @ [Close g d] \<and> job_goroutines ?v = []"
    if al: "process w = Alive"
  proof -
    from look have st: "step (CloseDone g) w = Some ?v"
      by (simp add: step_def al eq worker_close_done_open [OF ch])
    have "job_goroutines ?u = job_goroutines w"
      by (simp add: job_goroutines_def)
    then have "job_goroutines ?v = []"
      by (simp add: job_goroutines_over jg)
    with st al show ?thesis
      by (simp add: over_def closed_def)
  qed
  with eq nc se show ?thesis by blast
qed

section \<open>What no operation changes\<close>

lemma step_keeps_worker:
  assumes "step a w = Some w'" and "currentWorker (inst w) \<noteq> None"
  shows "currentWorker (inst w') = currentWorker (inst w)
    \<and> currentMemoryLogger (inst w') = currentMemoryLogger (inst w)"
proof -
  from assms(1) have ex: "exec a w = Some w'"
    by (simp add: step_def split: if_splits)
  show ?thesis
  proof (cases "currentWorkerMutex (inst w) = None")
    case free: True
    have sig: "currentWorker (inst u) = currentWorker (inst w)
      \<and> currentMemoryLogger (inst u) = currentMemoryLogger (inst w)"
      if "signal_handler g s w = Some u" for g s u
      using arg_cong [OF signal_handler_fields [OF that], of currentWorker]
        arg_cong [OF signal_handler_fields [OF that], of currentMemoryLogger]
      by simp
    show ?thesis
    proof (cases a)
      case (Signal g s)
      with ex sig show ?thesis
        by (auto simp: over_def split: option.splits goroutine.splits if_splits)
    qed (use ex assms(2) in \<open>auto simp: CreateWrangler_eq InstallSignalHandlers_eq
          setAndStartWorker_busy [OF free] worker_save_state_eq [OF free]
          worker_start_def worker_close_done_def prim_defs Let_def become_def over_def panicked_def
          split: option.splits goroutine.splits prod.splits result.splits chan.splits bool.splits\<close>)
  next
    case False
    then show ?thesis
      using ex
      by (cases a)
        (auto simp: CreateWrangler_eq InstallSignalHandlers_eq setAndStartWorker_blocked
          worker_save_state_blocked signal_handler_blocked
          worker_start_def worker_close_done_def prim_defs Let_def become_def over_def panicked_def
          split: option.splits goroutine.splits prod.splits result.splits chan.splits bool.splits
            if_splits)
  qed
qed

lemma run_keeps_worker:
  assumes "run as w = Some w'" and "currentWorker (inst w) \<noteq> None"
  shows "currentWorker (inst w') = currentWorker (inst w)
    \<and> currentMemoryLogger (inst w') = currentMemoryLogger (inst w)"
  using assms
proof (induction as arbitrary: w)
  case Nil
  then show ?case by simp
next
  case (Cons a as)
  from Cons.prems(1) obtain u where u: "step a w = Some u" and r: "run as u = Some w'"
    by (auto split: option.splits)
  from step_keeps_worker [OF u Cons.prems(2)] Cons.IH [OF r] Cons.prems(2)
  show ?case by simp
qed

lemma setAndStartWorker_lockTimeout:
  assumes "setAndStartWorker t wrk p w = Some (r, w')"
  shows "lockTimeout (inst w') = lockTimeout (inst w)"
proof (cases "currentWorkerMutex (inst w) = None")
  case False
  with assms show ?thesis by (simp add: setAndStartWorker_blocked)
next
  case free: True
  show ?thesis
  proof (cases "currentWorker (inst w) = None")
    case False
    with assms show ?thesis by (auto simp: setAndStartWorker_busy [OF free])
  next
    case none: True
    show ?thesis
    proof (cases "deref w p")
      case None
      with assms show ?thesis by (auto simp: setAndStartWorker_panic [OF free none])
    next
      case (Some x)
      then obtain a where p: "p = Some a" and x: "wranglers w a = Some x"
        by (cases p) (simp_all add: deref_def)
      from assms show ?thesis by (auto simp: p setAndStartWorker_admit [OF free none x])
    qed
  qed
qed

lemma signal_handler_lockTimeout:
  assumes "signal_handler g s w = Some w'"
  shows "lockTimeout (inst w') = lockTimeout (inst w)"
  using arg_cong [OF signal_handler_fields [OF assms], of lockTimeout] by simp

lemma step_keeps_lockTimeout:
  assumes "step a w = Some w'"
  shows "lockTimeout (inst w') = lockTimeout (inst w)"
proof -
  from assms have ex: "exec a w = Some w'"
    by (simp add: step_def split: if_splits)
  show ?thesis
  proof (cases a)
    case (Admit t j p)
    with ex obtain r u where "setAndStartWorker t j p w = Some (r, u)"
      and "inst w' = inst u"
      by (auto simp: panicked_def split: option.splits result.splits)
    then show ?thesis
      using setAndStartWorker_lockTimeout by simp
  next
    case (Signal g s)
    with ex obtain u where "signal_handler g s w = Some u" and "inst w' = inst u"
      by (auto simp: over_def split: option.splits goroutine.splits if_splits)
    then show ?thesis
      using signal_handler_lockTimeout by simp
  next
    case (Finish g err)
    with ex show ?thesis
      by (cases "currentWorkerMutex (inst w) = None")
        (auto simp: worker_save_state_eq worker_save_state_blocked become_def
          split: option.splits goroutine.splits)
  qed (use ex in \<open>auto simp: CreateWrangler_eq InstallSignalHandlers_eq
        worker_start_def worker_close_done_def prim_defs Let_def
        become_def over_def panicked_def
        split: option.splits goroutine.splits prod.splits result.splits chan.splits bool.splits\<close>)
qed

lemma run_keeps_lockTimeout:
  assumes "run as w = Some w'"
  shows "lockTimeout (inst w') = lockTimeout (inst w)"
  using assms
proof (induction as arbitrary: w)
  case Nil
  then show ?case by simp
next
  case (Cons a as)
  from Cons.prems obtain u where u: "step a w = Some u" and r: "run as u = Some w'"
    by (auto split: option.splits)
  from step_keeps_lockTimeout [OF u] Cons.IH [OF r] show ?case by simp
qed

section \<open>Admission\<close>

text \<open>
  C1, as amended. Once the mutex is free the call returns, and it fails with the error of
  line 71 exactly when \<open>currentWorker\<close> is set; in the three-state table that is the Running
  state and the Completed state alike. A failed admission returns no channel and leaves the
  world as it was but for the history of its own locking and reading: no field of the
  instance changes and no goroutine starts. An admission with no current worker and a
  wrangler to work on succeeds.
\<close>

theorem admission_fails_iff_worker_set:
  assumes free: "currentWorkerMutex (inst w) = None"
  shows "\<exists>r w'. setAndStartWorker t wrk p w = Some (r, w')
    \<and> ((\<exists>e. r = Return (None, Some e)) = (currentWorker (inst w) \<noteq> None))
    \<and> (currentWorker (inst w) \<noteq> None \<longrightarrow>
          r = Return (None, Some (Errorf ''A worker is already in progress: %v'' (currentWorker (inst w))))
          \<and> w' = w\<lparr>trace := trace w @ [Acquire t, Read t F_currentWorker, Read t F_currentWorker, Release t]\<rparr>)
    \<and> (Idle (inst w) \<or> Running (inst w) \<or> Completed (inst w) \<longrightarrow>
          (currentWorker (inst w) \<noteq> None) = (Running (inst w) \<or> Completed (inst w)))
    \<and> (currentWorker (inst w) = None \<and> deref w p \<noteq> None \<longrightarrow> (\<exists>d. r = Return (Some d, None)))"
proof -
  have table: "Idle (inst w) \<or> Running (inst w) \<or> Completed (inst w) \<longrightarrow>
      (currentWorker (inst w) \<noteq> None) = (Running (inst w) \<or> Completed (inst w))"
    by (auto simp: Idle_def Running_def Completed_def)
  have "\<exists>r w'. setAndStartWorker t wrk p w = Some (r, w')
    \<and> ((\<exists>e. r = Return (None, Some e)) = (currentWorker (inst w) \<noteq> None))
    \<and> (currentWorker (inst w) \<noteq> None \<longrightarrow>
          r = Return (None, Some (Errorf ''A worker is already in progress: %v'' (currentWorker (inst w))))
          \<and> w' = w\<lparr>trace := trace w @ [Acquire t, Read t F_currentWorker, Read t F_currentWorker, Release t]\<rparr>)
    \<and> (currentWorker (inst w) = None \<and> deref w p \<noteq> None \<longrightarrow> (\<exists>d. r = Return (Some d, None)))"
  proof (cases "currentWorker (inst w) = None")
    case False
    then show ?thesis
      by (simp add: setAndStartWorker_busy [OF free False])
  next
    case none: True
    show ?thesis
    proof (cases "deref w p")
      case None
      with none show ?thesis
        by (simp add: setAndStartWorker_panic [OF free none None])
    next
      case (Some x)
      then obtain a where p: "p = Some a" and x: "wranglers w a = Some x"
        by (cases p) (simp_all add: deref_def)
      from none show ?thesis
        by (simp add: p setAndStartWorker_admit [OF free none x])
    qed
  qed
  with table show ?thesis by blast
qed

text \<open>
  At the completed instance of the example the admission of a second job fails; at the fresh
  instance the admission of the first job succeeds.
\<close>

theorem admission_fails_iff_worker_set_witness:
  "currentWorkerMutex (inst example_completed) = None
   \<and> currentWorker (inst example_completed) \<noteq> None
   \<and> Completed (inst example_completed)
   \<and> setAndStartWorker 7 (Some (Worker 2)) (Some 0) example_completed
       = Some (Return (None, Some (Errorf ''A worker is already in progress: %v'' (Some (Worker 1)))),
               example_completed\<lparr>trace := trace example_completed
                  @ [Acquire 7, Read 7 F_currentWorker, Read 7 F_currentWorker, Release 7]\<rparr>)
   \<and> currentWorkerMutex (inst example_instance) = None
   \<and> currentWorker (inst example_instance) = None
   \<and> Idle (inst example_instance)
   \<and> deref example_instance (Some 0) \<noteq> None
   \<and> setAndStartWorker 9 (Some (Worker 1)) (Some 0) example_instance
       = Some (Return (Some 3, None), example_admitted)"
proof -
  have f1: "currentWorkerMutex (inst example_completed) = None"
    by (simp add: example_defs eval_rules)
  have f2: "currentWorkerMutex (inst example_instance) = None"
    by (simp add: example_defs eval_rules)
  have c1: "currentWorker (inst example_completed) = Some (Worker 1)"
    "Completed (inst example_completed)"
    by (simp_all add: example_defs eval_rules state_defs)
  have c2: "currentWorker (inst example_instance) = None" "Idle (inst example_instance)"
    "deref example_instance (Some 0) \<noteq> None"
    by (simp_all add: example_defs eval_rules state_defs)
  have ad: "setAndStartWorker 9 (Some (Worker 1)) (Some 0) example_instance
       = Some (Return (Some 3, None), example_admitted)"
    by (simp add: example_defs eval_rules)
  from admission_fails_iff_worker_set [OF f1, of 7 "Some (Worker 2)" "Some 0"]
    admission_fails_iff_worker_set [OF f2, of 9 "Some (Worker 1)" "Some 0"]
    f1 f2 c1 c2 ad
  show ?thesis by auto
qed

text \<open>
  C1 as first stated, with failure in the Running state only, does not hold: the example
  reaches a state that is Completed and not Running, and there the admission of a job fails
  with the error of line 71.
\<close>

theorem admission_in_completed_state_fails:
  "run [Admit 9 (Some (Worker 1)) (Some 0), Start 4, Finish 4 (Some (WorkerError 3)), CloseDone 4]
      example_instance = Some example_completed
   \<and> Completed (inst example_completed) \<and> \<not> Running (inst example_completed)
   \<and> currentWorkerMutex (inst example_completed) = None
   \<and> map_option fst (setAndStartWorker 7 (Some (Worker 2)) (Some 0) example_completed)
       = Some (Return (None, Some (Errorf ''A worker is already in progress: %v'' (Some (Worker 1)))))"
  by (simp add: example_defs eval_rules state_defs)

text \<open>
  C3. An admission while no worker is current, on a wrangler that exists, returns a channel
  and no error, and sets exactly five fields: \<open>currentWorker\<close> to the job, \<open>currentMemoryLogger\<close>
  to a memory logger at an address not handed out before, \<open>currentContext\<close> and
  \<open>currentCancelFunc\<close> to the context and the cancel function that \<open>context.WithCancel\<close> makes
  from the background context, at an address not handed out before either, and
  \<open>lastRunError\<close> to nil.
\<close>

theorem admission_post_state:
  assumes free: "currentWorkerMutex (inst w) = None"
    and none: "currentWorker (inst w) = None"
    and x: "wranglers w a = Some x"
  shows "\<exists>w'. setAndStartWorker t wrk (Some a) w = Some (Return (Some (nextAddr w + 2), None), w')
    \<and> inst w' = (inst w)\<lparr>currentWorker := wrk,
                            currentMemoryLogger := Some (nextAddr w),
                            currentContext := Some (CancelCtx (nextAddr w + 1) Background),
                            currentCancelFunc := Some (CancelFunc (nextAddr w + 1)),
                            lastRunError := None\<rparr>
    \<and> \<not> allocated w (nextAddr w) \<and> \<not> allocated w (nextAddr w + 1)
    \<and> allocated w' (nextAddr w) \<and> allocated w' (nextAddr w + 1)"
  by (simp add: setAndStartWorker_admit [OF free none x] allocated_def)

text \<open>
  The admission of the example.
\<close>

theorem admission_post_state_witness:
  "currentWorkerMutex (inst example_instance) = None
   \<and> currentWorker (inst example_instance) = None
   \<and> wranglers example_instance 0
       = Some \<lparr>wr_logger = ConsoleLogger, wr_ts = TopoServer 0, wr_tmc = TabletManagerClient,
               wr_lockTimeout = 0\<rparr>
   \<and> setAndStartWorker 9 (Some (Worker 1)) (Some 0) example_instance
       = Some (Return (Some 3, None), example_admitted)
   \<and> inst example_admitted
       = \<lparr>wr = Some 0, currentWorkerMutex = None, currentWorker = Some (Worker 1),
          currentMemoryLogger = Some 1, currentContext = Some (CancelCtx 2 Background),
          currentCancelFunc = Some (CancelFunc 2), lastRunError = None,
          topoServer = TopoServer 0, cell = ''test'', lockTimeout = 0,
          commandDisplayInterval = 1\<rparr>
   \<and> \<not> allocated example_instance 1 \<and> \<not> allocated example_instance 2
   \<and> allocated example_admitted 1 \<and> allocated example_admitted 2"
proof -
  have f: "currentWorkerMutex (inst example_instance) = None"
    and n: "currentWorker (inst example_instance) = None"
    and x: "wranglers example_instance 0
       = Some \<lparr>wr_logger = ConsoleLogger, wr_ts = TopoServer 0, wr_tmc = TabletManagerClient,
               wr_lockTimeout = 0\<rparr>"
    by (simp_all add: example_defs eval_rules)
  have na: "nextAddr example_instance = 1"
    by (simp add: example_defs eval_rules)
  have ad: "setAndStartWorker 9 (Some (Worker 1)) (Some 0) example_instance
       = Some (Return (Some 3, None), example_admitted)"
    by (simp add: example_defs eval_rules)
  have i: "inst example_instance
       = \<lparr>wr = Some 0, currentWorkerMutex = None, currentWorker = None,
          currentMemoryLogger = None, currentContext = None,
          currentCancelFunc = None, lastRunError = None,
          topoServer = TopoServer 0, cell = ''test'', lockTimeout = 0,
          commandDisplayInterval = 1\<rparr>"
    by (simp add: example_defs eval_rules)
  from admission_post_state [OF f n x, of 9 "Some (Worker 1)"]
  obtain w' where a: "setAndStartWorker 9 (Some (Worker 1)) (Some 0) example_instance
        = Some (Return (Some (nextAddr example_instance + 2), None), w')"
    and b: "inst w' = (inst example_instance)\<lparr>currentWorker := Some (Worker 1),
                            currentMemoryLogger := Some (nextAddr example_instance),
                            currentContext := Some (CancelCtx (nextAddr example_instance + 1) Background),
                            currentCancelFunc := Some (CancelFunc (nextAddr example_instance + 1)),
                            lastRunError := None\<rparr>"
    and c: "\<not> allocated example_instance (nextAddr example_instance)"
      "\<not> allocated example_instance (nextAddr example_instance + 1)"
      "allocated w' (nextAddr example_instance)" "allocated w' (nextAddr example_instance + 1)"
    by blast
  from a ad have w': "w' = example_admitted" by simp
  from b c show ?thesis
    unfolding w' na i using f n x ad by (simp add: eval_nat_numeral)
qed

text \<open>
  C7. After a successful admission the logger of the wrangler passed in is the tee of the
  new memory logger and of the logger that wrangler had, unless the wrangler is the default
  one of the instance: then the second branch of the tee is a new console logger. No other
  wrangler is touched.
\<close>

theorem admission_installs_tee_logger:
  assumes ok: "setAndStartWorker t wrk p w = Some (Return (Some d, None), w')"
  shows "\<exists>a x. p = Some a \<and> wranglers w a = Some x
    \<and> currentMemoryLogger (inst w') = Some (nextAddr w) \<and> \<not> allocated w (nextAddr w)
    \<and> map_option wr_logger (wranglers w' a) =
        Some (logutil_NewTeeLogger (MemoryLogger (currentMemoryLogger (inst w')))
               (if p = wr (inst w) then logutil_NewConsoleLogger else wr_logger x))
    \<and> logutil_NewTeeLogger (MemoryLogger (currentMemoryLogger (inst w')))
               (if p = wr (inst w) then logutil_NewConsoleLogger else wr_logger x)
        = TeeLogger (MemoryLogger (Some (nextAddr w)))
               (if p = wr (inst w) then ConsoleLogger else wr_logger x)
    \<and> (\<forall>b. b \<noteq> a \<longrightarrow> wranglers w' b = wranglers w b)"
proof -
  have free: "currentWorkerMutex (inst w) = None"
    using ok by (cases "currentWorkerMutex (inst w) = None") (simp_all add: setAndStartWorker_blocked)
  have none: "currentWorker (inst w) = None"
    using ok by (rule admitted_from_nil)
  have "deref w p \<noteq> None"
  proof
    assume "deref w p = None"
    from ok show False
      by (simp add: setAndStartWorker_panic [OF free none \<open>deref w p = None\<close>])
  qed
  then obtain a x where p: "p = Some a" and x: "wranglers w a = Some x"
    by (cases p) (auto simp: deref_def)
  from ok show ?thesis
    by (auto simp: p x setAndStartWorker_admit [OF free none x] allocated_def
        logutil_NewTeeLogger_def logutil_NewConsoleLogger_def)
qed

text \<open>
  The admission of the example, on the default wrangler, and an admission on the wrangler of
  a caller, which logs to the caller's logger.
\<close>

theorem admission_installs_tee_logger_witness:
  "setAndStartWorker 9 (Some (Worker 1)) (Some 0) example_instance
       = Some (Return (Some 3, None), example_admitted)
   \<and> wr (inst example_instance) = Some 0
   \<and> map_option wr_logger (wranglers example_admitted 0)
       = Some (TeeLogger (MemoryLogger (Some 1)) ConsoleLogger)
   \<and> map_option wr_logger (wranglers example_custom 1) = Some (CallerLogger 7)
   \<and> wr (inst example_custom) = Some 0
   \<and> setAndStartWorker 9 (Some (Worker 1)) (Some 1) example_custom
       = Some (Return (Some 4, None), after [Admit 9 (Some (Worker 1)) (Some 1)] example_custom)
   \<and> map_option wr_logger (wranglers (after [Admit 9 (Some (Worker 1)) (Some 1)] example_custom) 1)
       = Some (TeeLogger (MemoryLogger (Some 2)) (CallerLogger 7))
   \<and> map_option wr_logger (wranglers (after [Admit 9 (Some (Worker 1)) (Some 1)] example_custom) 0)
       = Some ConsoleLogger"
proof -
  have a1: "setAndStartWorker 9 (Some (Worker 1)) (Some 0) example_instance
       = Some (Return (Some 3, None), example_admitted)"
    and d1: "wr (inst example_instance) = Some 0" "nextAddr example_instance = 1"
      "map_option wr_logger (wranglers example_instance 0) = Some ConsoleLogger"
    by (simp_all add: example_defs eval_rules)
  have a2: "setAndStartWorker 9 (Some (Worker 1)) (Some 1) example_custom
       = Some (Return (Some 4, None), after [Admit 9 (Some (Worker 1)) (Some 1)] example_custom)"
    and d2: "wr (inst example_custom) = Some 0" "nextAddr example_custom = 2"
      "map_option wr_logger (wranglers example_custom 1) = Some (CallerLogger 7)"
      "map_option wr_logger (wranglers example_custom 0) = Some ConsoleLogger"
    by (simp_all add: example_defs eval_rules)
  from admission_installs_tee_logger [OF a1] d1
  have t1: "map_option wr_logger (wranglers example_admitted 0)
       = Some (TeeLogger (MemoryLogger (Some 1)) ConsoleLogger)"
    by auto
  from admission_installs_tee_logger [OF a2] d2
  have t2: "map_option wr_logger (wranglers (after [Admit 9 (Some (Worker 1)) (Some 1)] example_custom) 1)
       = Some (TeeLogger (MemoryLogger (Some 2)) (CallerLogger 7))"
    "map_option wr_logger (wranglers (after [Admit 9 (Some (Worker 1)) (Some 1)] example_custom) 0)
       = Some ConsoleLogger"
    by auto
  from a1 d1 a2 d2 t1 t2 show ?thesis by simp
qed

section \<open>Completion\<close>

text \<open>
  C4. When \<open>Run\<close> returns \<open>err\<close>, nil or not, and the mutex is free, the goroutine saves its
  state: \<open>lastRunError\<close> is \<open>err\<close> as returned, \<open>currentContext\<close> and \<open>currentCancelFunc\<close> are
  nil. With the channel still open the completion step then returns without a panic, the
  process goes on as before, and the instance, if it had a worker, is in the Completed
  state.
\<close>

theorem completion_records_error:
  assumes free: "currentWorkerMutex (inst w) = None"
    and op: "chans w d = Some (Chan n False)"
  shows "\<exists>w1 w2. worker_save_state g j err w = Some w1
    \<and> worker_completion g j err d w = Some (Return (), w2)
    \<and> lastRunError (inst w1) = err \<and> currentContext (inst w1) = None
    \<and> currentCancelFunc (inst w1) = None
    \<and> inst w2 = inst w1 \<and> process w2 = process w
    \<and> (currentWorker (inst w) \<noteq> None \<longrightarrow> Completed (inst w2))"
  by (simp add: worker_completion_def worker_save_state_eq [OF free] worker_close_done_open op
      Completed_def)

text \<open>
  The job of the example returns an error.
\<close>

theorem completion_records_error_witness:
  "currentWorkerMutex (inst example_running) = None
   \<and> chans example_running 3 = Some (Chan 0 False)
   \<and> currentWorker (inst example_running) \<noteq> None
   \<and> map_option fst (worker_completion 4 (Worker 1) (Some (WorkerError 3)) 3 example_running)
       = Some (Return ())
   \<and> map_option (lastRunError \<circ> inst) (worker_save_state 4 (Worker 1) (Some (WorkerError 3)) example_running)
       = Some (Some (WorkerError 3))
   \<and> map_option (Completed \<circ> inst \<circ> snd)
        (worker_completion 4 (Worker 1) (Some (WorkerError 3)) 3 example_running) = Some True
   \<and> map_option (process \<circ> snd)
        (worker_completion 4 (Worker 1) (Some (WorkerError 3)) 3 example_running) = Some Alive"
proof -
  have f: "currentWorkerMutex (inst example_running) = None"
    and op: "chans example_running 3 = Some (Chan 0 False)"
    and cw: "currentWorker (inst example_running) \<noteq> None"
    and al: "process example_running = Alive"
    by (simp_all add: example_defs eval_rules)
  from completion_records_error [OF f op, of 4 "Worker 1" "Some (WorkerError 3)"] f op cw al
  show ?thesis by auto
qed

text \<open>
  C5. A job \<open>j\<close> is admitted in a world that a schedule reaches, and \<open>setAndStartWorker\<close>
  returns the channel \<open>d\<close>: a channel made by that call and open, captured by the goroutine
  \<open>g\<close> the call starts, and there is no error. In every world that any schedule then
  reaches without a panic, \<open>d\<close> has been closed once if it is closed and never if it is
  not. If it is closed, the state is settled: \<open>lastRunError\<close> holds the result of the run
  of \<open>j\<close>, there is no context and no cancel function, and no goroutine of a job is left.
  If it is not, \<open>g\<close> is the one goroutine of a job and \<open>d\<close> the channel it will close. A
  goroutine found inside \<open>Run\<close> is \<open>g\<close>: whatever \<open>Run\<close> returns, its next step saves the
  state and leaves \<open>d\<close> open. A goroutine found before its \<open>close\<close> is \<open>g\<close> with \<open>d\<close>: the
  state is saved already, and its next step closes \<open>d\<close> and changes no field of the
  instance.
\<close>

theorem done_closed_once_after_state_saved:
  assumes reach: "run as (NewInstance ts c lt cdi) = Some w" and al: "process w = Alive"
    and ad: "setAndStartWorker t (Some j) p w = Some (Return (Some d, e), w')"
    and later: "run bs w' = Some w''" and np: "process w'' \<noteq> Panicked"
  shows "\<exists>g. e = None \<and> \<not> allocated w d \<and> chans w' d = Some (Chan 0 False)
    \<and> goroutines w' = goroutines w @ [(g, JobSpawned (Some j) d)]
    \<and> count_list (closes (trace w')) d = 0
    \<and> count_list (closes (trace w'')) d = (if closed w'' d then 1 else 0)
    \<and> currentWorker (inst w'') = Some j
    \<and> (closed w'' d \<longrightarrow> settled w'' \<and> job_goroutines w'' = [])
    \<and> (\<not> closed w'' d \<longrightarrow>
          job_goroutines w'' = [(g, JobSpawned (Some j) d)]
          \<or> job_goroutines w'' = [(g, JobInRun j d)]
          \<or> job_goroutines w'' = [(g, JobReturned d)])
    \<and> (\<forall>g' j' c' err. process w'' = Alive
            \<and> map_of (goroutines w'') g' = Some (JobInRun j' c') \<longrightarrow>
          g' = g \<and> j' = j \<and> c' = d \<and> \<not> closed w'' d
          \<and> (\<exists>u. step (Finish g err) w'' = Some u \<and> process u = Alive \<and> \<not> closed u d
                \<and> settled u \<and> lastRunError (inst u) = err \<and> currentContext (inst u) = None
                \<and> currentCancelFunc (inst u) = None \<and> currentWorker (inst u) = Some j
                \<and> job_goroutines u = [(g, JobReturned d)]
                \<and> trace u = trace w'' @ [RunReturned g j err, Acquire g,
                     Write g F_currentContext, Write g F_currentCancelFunc,
                     Write g F_lastRunError, Release g]))
    \<and> (\<forall>g' c'. map_of (goroutines w'') g' = Some (JobReturned c') \<longrightarrow>
          g' = g \<and> c' = d \<and> \<not> closed w'' d \<and> settled w''
          \<and> (process w'' = Alive \<longrightarrow>
               (\<exists>u. step (CloseDone g) w'' = Some u \<and> process u = Alive \<and> closed u d
                  \<and> inst u = inst w'' \<and> trace u = trace w'' @ [Close g d]
                  \<and> job_goroutines u = [])))"
proof -
  have co: "coherent w"
    using coherent_NewInstance reach by (rule run_coherent) (simp add: al)
  let ?g = "nextAddr w + 3"
  note adm = admission_awaits [OF co al ad]
  have fresh: "\<not> allocated w d"
    by (simp add: allocated_def adm(2))
  have c0: "count_list (closes (trace w')) d = 0"
    using adm(6) adm(3) by (simp add: coherent_def closed_def)
  have co'': "coherent w''"
    using adm(6) later np by (rule run_coherent)
  have aw'': "awaits ?g j d w''"
    using adm(5) adm(6) later np by (rule run_awaits)
  have cnt: "count_list (closes (trace w'')) d = (if closed w'' d then 1 else 0)"
    using co'' by (simp add: coherent_def)
  have cw: "currentWorker (inst w'') = Some j"
    using aw'' by (simp add: awaits_def)
  have cl: "closed w'' d \<longrightarrow> settled w'' \<and> job_goroutines w'' = []"
    using co'' aw'' by (auto simp: coherent_def awaits_def)
  have op: "\<not> closed w'' d \<longrightarrow>
          job_goroutines w'' = [(?g, JobSpawned (Some j) d)]
          \<or> job_goroutines w'' = [(?g, JobInRun j d)]
          \<or> job_goroutines w'' = [(?g, JobReturned d)]"
    using aw'' unfolding awaits_def by blast
  note sv = awaits_save [OF aw'' co'']
  note cd = awaits_close [OF aw'' co'']
  from adm(1) fresh adm(3) adm(4) c0 cnt cw cl op sv cd show ?thesis
    by (intro exI [of _ ?g] conjI allI impI) (blast | simp)+
qed

text \<open>
  The job of the example: admitted on the new instance, inside \<open>Run\<close>, returned with an
  error, and past its \<open>close\<close>.
\<close>

theorem done_closed_once_after_state_saved_witness:
  "run [] (NewInstance (TopoServer 0) ''test'' 30 1) = Some example_instance
   \<and> process example_instance = Alive
   \<and> setAndStartWorker 9 (Some (Worker 1)) (Some 0) example_instance
       = Some (Return (Some 3, None), example_admitted)
   \<and> goroutines example_admitted
       = goroutines example_instance @ [(4, JobSpawned (Some (Worker 1)) 3)]
   \<and> run [Start 4] example_admitted = Some example_running
   \<and> process example_running = Alive
   \<and> map_of (goroutines example_running) 4 = Some (JobInRun (Worker 1) 3)
   \<and> \<not> closed example_running 3
   \<and> step (Finish 4 (Some (WorkerError 3))) example_running = Some example_returned
   \<and> run [Start 4, Finish 4 (Some (WorkerError 3))] example_admitted = Some example_returned
   \<and> process example_returned = Alive
   \<and> map_of (goroutines example_returned) 4 = Some (JobReturned 3)
   \<and> \<not> closed example_returned 3
   \<and> settled example_returned
   \<and> lastRunError (inst example_returned) = Some (WorkerError 3)
   \<and> count_list (closes (trace example_returned)) 3 = 0
   \<and> step (CloseDone 4) example_returned = Some example_completed
   \<and> run [Start 4, Finish 4 (Some (WorkerError 3)), CloseDone 4] example_admitted
       = Some example_completed
   \<and> process example_completed \<noteq> Panicked
   \<and> closed example_completed 3
   \<and> count_list (closes (trace example_completed)) 3 = 1
   \<and> settled example_completed
   \<and> inst example_completed = inst example_returned
   \<and> job_goroutines example_completed = []"
proof -
  have r0: "run [] (NewInstance (TopoServer 0) ''test'' 30 1) = Some example_instance"
    and al0: "process example_instance = Alive"
    and ad: "setAndStartWorker 9 (Some (Worker 1)) (Some 0) example_instance
       = Some (Return (Some 3, None), example_admitted)"
    and gs: "goroutines example_admitted
       = goroutines example_instance @ [(4, JobSpawned (Some (Worker 1)) 3)]"
    by (simp_all add: example_defs eval_rules)
  have r1: "run [Start 4] example_admitted = Some example_running"
    and al1: "process example_running = Alive"
    and np1: "process example_running \<noteq> Panicked"
    and look1: "map_of (goroutines example_running) 4 = Some (JobInRun (Worker 1) 3)"
    and s1: "step (Finish 4 (Some (WorkerError 3))) example_running = Some example_returned"
    by (simp_all add: example_defs eval_rules)
  have r2: "run [Start 4, Finish 4 (Some (WorkerError 3))] example_admitted = Some example_returned"
    and al2: "process example_returned = Alive"
    and np2: "process example_returned \<noteq> Panicked"
    and look2: "map_of (goroutines example_returned) 4 = Some (JobReturned 3)"
    and le2: "lastRunError (inst example_returned) = Some (WorkerError 3)"
    and s2: "step (CloseDone 4) example_returned = Some example_completed"
    by (simp_all add: example_defs eval_rules)
  have r3: "run [Start 4, Finish 4 (Some (WorkerError 3)), CloseDone 4] example_admitted
       = Some example_completed"
    and np3: "process example_completed \<noteq> Panicked"
    and cl3: "closed example_completed 3"
    and in3: "inst example_completed = inst example_returned"
    by (simp_all add: example_defs eval_rules closed_def)
  from done_closed_once_after_state_saved [OF r0 al0 ad r1 np1] al1 look1
  have nc1: "\<not> closed example_running 3"
    by blast
  from done_closed_once_after_state_saved [OF r0 al0 ad r2 np2] look2
  have nc2: "\<not> closed example_returned 3" and se2: "settled example_returned"
    and c2: "count_list (closes (trace example_returned)) 3 = 0"
    by (blast, blast, metis)
  from done_closed_once_after_state_saved [OF r0 al0 ad r3 np3] cl3
  have c3: "count_list (closes (trace example_completed)) 3 = 1"
    and se3: "settled example_completed" and jg3: "job_goroutines example_completed = []"
    by (metis, blast, blast)
  from r0 al0 ad gs r1 al1 look1 nc1 s1 r2 al2 look2 nc2 se2 le2 c2 s2 r3 np3 cl3 c3 se3 in3 jg3
  show ?thesis by simp
qed

text \<open>
  C6. The completion step sets \<open>currentContext\<close>, \<open>currentCancelFunc\<close> and \<open>lastRunError\<close> and
  changes no other field of the instance: \<open>currentWorker\<close> and \<open>currentMemoryLogger\<close> are what
  admission set; it leaves the wranglers, the goroutines and the process alone. And once a
  worker is current, no operation of the file, in any schedule, changes \<open>currentWorker\<close> or
  \<open>currentMemoryLogger\<close>.
\<close>

theorem completion_frame:
  "(worker_completion g j err d w = Some (r, w') \<longrightarrow>
      inst w' = (inst w)\<lparr>currentContext := None, currentCancelFunc := None, lastRunError := err\<rparr>
      \<and> currentWorker (inst w') = currentWorker (inst w)
      \<and> currentMemoryLogger (inst w') = currentMemoryLogger (inst w)
      \<and> wranglers w' = wranglers w \<and> goroutines w' = goroutines w
      \<and> nextAddr w' = nextAddr w \<and> cancelled w' = cancelled w \<and> notify w' = notify w
      \<and> process w' = process w)
   \<and> (run as w = Some w'' \<and> currentWorker (inst w) \<noteq> None \<longrightarrow>
      currentWorker (inst w'') = currentWorker (inst w)
      \<and> currentMemoryLogger (inst w'') = currentMemoryLogger (inst w))"
proof -
  have "inst w' = (inst w)\<lparr>currentContext := None, currentCancelFunc := None, lastRunError := err\<rparr>
      \<and> currentWorker (inst w') = currentWorker (inst w)
      \<and> currentMemoryLogger (inst w') = currentMemoryLogger (inst w)
      \<and> wranglers w' = wranglers w \<and> goroutines w' = goroutines w
      \<and> nextAddr w' = nextAddr w \<and> cancelled w' = cancelled w \<and> notify w' = notify w
      \<and> process w' = process w"
    if c: "worker_completion g j err d w = Some (r, w')"
  proof (cases "currentWorkerMutex (inst w) = None")
    case True
    from c show ?thesis
      by (auto simp: worker_completion_def worker_save_state_eq [OF True] worker_close_done_def
          close_chan_def emit_def split: option.splits chan.splits bool.splits)
  next
    case False
    with c show ?thesis
      by (simp add: worker_completion_def worker_save_state_blocked)
  qed
  with run_keeps_worker [of as w w''] show ?thesis by blast
qed

text \<open>
  The completion of the example, and a later admission that fails.
\<close>

theorem completion_frame_witness:
  "map_option fst (worker_completion 4 (Worker 1) (Some (WorkerError 3)) 3 example_running)
       = Some (Return ())
   \<and> map_option (inst \<circ> snd) (worker_completion 4 (Worker 1) (Some (WorkerError 3)) 3 example_running)
       = Some ((inst example_running)\<lparr>currentContext := None, currentCancelFunc := None,
                lastRunError := Some (WorkerError 3)\<rparr>)
   \<and> run [Finish 4 (Some (WorkerError 3)), CloseDone 4, Admit 7 (Some (Worker 2)) (Some 0)] example_running
       = Some (after [Admit 7 (Some (Worker 2)) (Some 0)] example_completed)
   \<and> currentWorker (inst example_running) = Some (Worker 1)
   \<and> currentMemoryLogger (inst example_running) = Some 1
   \<and> currentWorker (inst (after [Admit 7 (Some (Worker 2)) (Some 0)] example_completed)) = Some (Worker 1)
   \<and> currentMemoryLogger (inst (after [Admit 7 (Some (Worker 2)) (Some 0)] example_completed)) = Some 1"
proof -
  obtain r w' where k: "worker_completion 4 (Worker 1) (Some (WorkerError 3)) 3 example_running = Some (r, w')"
    and r: "r = Return ()"
    by (simp add: example_defs eval_rules worker_completion_def)
  have run: "run [Finish 4 (Some (WorkerError 3)), CloseDone 4, Admit 7 (Some (Worker 2)) (Some 0)] example_running
       = Some (after [Admit 7 (Some (Worker 2)) (Some 0)] example_completed)"
    and cw: "currentWorker (inst example_running) = Some (Worker 1)"
    and ml: "currentMemoryLogger (inst example_running) = Some 1"
    by (simp_all add: example_defs eval_rules)
  from completion_frame [of 4 "Worker 1" "Some (WorkerError 3)" 3 example_running r w'
      "[Finish 4 (Some (WorkerError 3)), CloseDone 4, Admit 7 (Some (Worker 2)) (Some 0)]"
      "after [Admit 7 (Some (Worker 2)) (Some 0)] example_completed"] k r run cw ml
  show ?thesis by simp
qed

section \<open>The state machine\<close>




section \<open>Signals\<close>

text \<open>
  C8. Once the mutex is free, the goroutine that received a signal locks the mutex first.
  With a cancel function present it calls it, which marks the context cancelled, and the
  process goes on, the instance as before; with none it prints and ends the process with
  exit code 0. \<open>InstallSignalHandlers\<close> starts that goroutine on a channel to which SIGTERM
  and SIGINT are sent.
\<close>

theorem signal_cancels_or_exits:
  assumes free: "currentWorkerMutex (inst w) = None"
  shows "\<exists>w'. signal_handler g s w = Some w'
    \<and> take (Suc (length (trace w))) (trace w') = trace w @ [Acquire g]
    \<and> (\<forall>a. currentCancelFunc (inst w) = Some (CancelFunc a) \<longrightarrow>
          a \<in> set (cancelled w') \<and> process w' = process w \<and> inst w' = inst w
          \<and> trace w' = trace w @ [Acquire g, Read g F_currentCancelFunc,
                Read g F_currentCancelFunc, Cancel g a, Release g])
    \<and> (currentCancelFunc (inst w) = None \<longrightarrow>
          process w' = Exited 0 \<and> cancelled w' = cancelled w
          \<and> trace w' = trace w @ [Acquire g, Read g F_currentCancelFunc,
                Printf ''Shutting down idle worker after receiving signal: %v'' s, Exit g 0])
    \<and> notify (InstallSignalHandlers t w) = notify w @ [(SIGTERM, nextAddr w), (SIGINT, nextAddr w)]
    \<and> goroutines (InstallSignalHandlers t w)
        = goroutines w @ [(Suc (nextAddr w), SignalWait (nextAddr w))]"
proof (cases "currentCancelFunc (inst w)")
  case None
  then show ?thesis
    by (simp add: signal_handler_exit [OF free None] InstallSignalHandlers_eq)
next
  case (Some cf)
  obtain a where cf: "cf = CancelFunc a" by (cases cf)
  show ?thesis
    using free
    by (simp add: signal_handler_cancel [OF free Some [unfolded cf]] Some cf
        InstallSignalHandlers_eq)
qed

text \<open>
  A signal while the job of the example runs, and one after it has completed.
\<close>

theorem signal_cancels_or_exits_witness:
  "currentWorkerMutex (inst example_running) = None
   \<and> currentCancelFunc (inst example_running) = Some (CancelFunc 2)
   \<and> map_option cancelled (signal_handler 8 SIGTERM example_running) = Some [2]
   \<and> map_option process (signal_handler 8 SIGTERM example_running) = Some Alive
   \<and> map_option inst (signal_handler 8 SIGTERM example_running) = Some (inst example_running)
   \<and> currentWorkerMutex (inst example_completed) = None
   \<and> currentCancelFunc (inst example_completed) = None
   \<and> map_option process (signal_handler 8 SIGINT example_completed) = Some (Exited 0)
   \<and> map_option trace (signal_handler 8 SIGINT example_completed)
       = Some (trace example_completed @ [Acquire 8, Read 8 F_currentCancelFunc,
            Printf ''Shutting down idle worker after receiving signal: %v'' SIGINT, Exit 8 0])
   \<and> map_option cancelled (run [Install 9, Signal 6 SIGTERM] example_running) = Some [2]
   \<and> map_option process (run [Install 9, Signal 6 SIGTERM] example_running) = Some Alive
   \<and> map_option process (run [Install 9, Signal 6 SIGINT] example_completed) = Some (Exited 0)
   \<and> run [Install 9, Signal 6 SIGHUP] example_completed = None"
proof -
  have sched: "map_option cancelled (run [Install 9, Signal 6 SIGTERM] example_running) = Some [2]"
    "map_option process (run [Install 9, Signal 6 SIGTERM] example_running) = Some Alive"
    "map_option process (run [Install 9, Signal 6 SIGINT] example_completed) = Some (Exited 0)"
    "run [Install 9, Signal 6 SIGHUP] example_completed = None"
    by (simp_all add: example_defs eval_rules)
  have f1: "currentWorkerMutex (inst example_running) = None"
    and c1: "currentCancelFunc (inst example_running) = Some (CancelFunc 2)"
      "cancelled example_running = []" "process example_running = Alive"
    by (simp_all add: example_defs eval_rules)
  have f2: "currentWorkerMutex (inst example_completed) = None"
    and c2: "currentCancelFunc (inst example_completed) = None"
    by (simp_all add: example_defs eval_rules)
  from signal_cancels_or_exits [OF f1, of 8 SIGTERM] c1
  obtain u where u: "signal_handler 8 SIGTERM example_running = Some u"
    and "2 \<in> set (cancelled u)" "process u = Alive" "inst u = inst example_running"
    by auto
  moreover have "map_option cancelled (signal_handler 8 SIGTERM example_running) = Some [2]"
    by (simp add: signal_handler_cancel [OF f1 c1(1)] c1)
  moreover from signal_cancels_or_exits [OF f2, of 8 SIGINT] c2
  obtain v where "signal_handler 8 SIGINT example_completed = Some v"
    and "process v = Exited 0"
    and "trace v = trace example_completed @ [Acquire 8, Read 8 F_currentCancelFunc,
            Printf ''Shutting down idle worker after receiving signal: %v'' SIGINT, Exit 8 0]"
    by auto
  ultimately show ?thesis using f1 c1 f2 c2 sched by simp
qed

section \<open>Lock discipline\<close>

lemma guarded_append: "guarded h (xs @ ys) = (guarded h xs \<and> guarded (holder h xs) ys)"
  by (induction h xs rule: guarded.induct) auto

lemma holder_append: "holder h (xs @ ys) = holder (holder h xs) ys"
  by (induction h xs rule: holder.induct) auto

lemma holder_but_context_reads: "holder h (but_context_reads tr) = holder h tr"
  by (induction h tr rule: holder.induct) (auto simp: but_context_reads_def)

lemma but_context_reads_append:
  "but_context_reads (xs @ ys) = but_context_reads xs @ but_context_reads ys"
  by (simp add: but_context_reads_def)

lemma disciplined_extend:
  assumes d: "disciplined w" and free: "currentWorkerMutex (inst w) = None"
    and tr: "trace w' = trace w @ es"
    and g: "guarded None (but_context_reads es)"
    and h: "holder None es = currentWorkerMutex (inst w')"
    and a: "process w' = Alive \<longrightarrow> currentWorkerMutex (inst w') = None"
  shows "disciplined w'"
proof -
  from d free have h0: "holder None (trace w) = None"
    by (simp add: disciplined_def)
  then have h1: "holder None (but_context_reads (trace w)) = None"
    by (simp add: holder_but_context_reads)
  show ?thesis
    using d g h a
    by (simp add: disciplined_def tr but_context_reads_append guarded_append holder_append h0 h1)
qed

lemma disciplined_NewInstance: "disciplined (NewInstance ts c lt cdi)"
  by (simp add: disciplined_def NewInstance_eq but_context_reads_def)

lemma set_remove1_append:
  "set (remove1 x xs @ [y]) \<subseteq> set xs \<union> {y}"
  using set_remove1_subset [of x xs] by auto

lemma step_disciplined:
  assumes d: "disciplined w" and st: "step a w = Some w'"
  shows "disciplined w' \<and> (\<exists>es. trace w' = trace w @ es)
    \<and> ((\<exists>g. a = Start g) \<and> process w' \<noteq> Panicked \<longrightarrow> \<not> guarded None (trace w'))"
proof -
  from st have al: "process w = Alive" and ex: "exec a w = Some w'"
    by (simp_all add: step_def split: if_splits)
  from d al have free: "currentWorkerMutex (inst w) = None"
    by (simp add: disciplined_def)
  from d free have h0: "holder None (trace w) = None"
    by (simp add: disciplined_def)
  note ext = disciplined_extend [OF d free]
  show ?thesis
  proof (cases a)
    case (MakeWrangler lg)
    with ex have w': "w' = snd (CreateWrangler lg w)" by simp
    have "disciplined w'"
      by (rule ext [of _ "[]"]) (simp_all add: w' CreateWrangler_eq free but_context_reads_def)
    then show ?thesis by (simp add: MakeWrangler w' CreateWrangler_eq)
  next
    case (Install t)
    with ex have w': "w' = InstallSignalHandlers t w" by simp
    have "disciplined w'"
      by (rule ext [of _ "[Go t (Suc (nextAddr w))]"])
        (auto simp: w' InstallSignalHandlers_eq free but_context_reads_def)
    then show ?thesis by (simp add: Install w' InstallSignalHandlers_eq)
  next
    case (Admit t j p)
    show ?thesis
    proof (cases "currentWorker (inst w) = None")
      case False
      from ex have w': "w' = w\<lparr>trace := trace w @ [Acquire t, Read t F_currentWorker,
          Read t F_currentWorker, Release t]\<rparr>"
        by (simp add: Admit setAndStartWorker_busy [OF free False])
      have "disciplined w'"
        by (rule ext [of _ "[Acquire t, Read t F_currentWorker, Read t F_currentWorker, Release t]"])
          (auto simp: w' free but_context_reads_def)
      then show ?thesis by (simp add: Admit w')
    next
      case none: True
      show ?thesis
      proof (cases "deref w p")
        case None
        let ?es = "[Acquire t, Read t F_currentWorker, Write t F_currentWorker,
               Write t F_currentMemoryLogger, Write t F_currentContext, Write t F_currentCancelFunc,
               Write t F_lastRunError, Release t]"
        from ex have w': "trace w' = trace w @ ?es" "process w' = Panicked"
          "currentWorkerMutex (inst w') = None" "goroutines w' = goroutines w"
          using free by (auto simp: Admit setAndStartWorker_panic [OF free none None] panicked_def)
        have "disciplined w'"
          by (rule ext [of _ ?es]) (auto simp: w' but_context_reads_def)
        then show ?thesis by (simp add: Admit w')
      next
        case (Some x)
        then obtain b where p: "p = Some b" and x: "wranglers w b = Some x"
          by (cases p) (simp_all add: deref_def)
        let ?es = "[Acquire t, Read t F_currentWorker, Write t F_currentWorker,
               Write t F_currentMemoryLogger, Write t F_currentContext, Write t F_currentCancelFunc,
               Write t F_lastRunError, Read t F_currentMemoryLogger, Go t (nextAddr w + 3), Release t]"
        from ex have w': "trace w' = trace w @ ?es" "process w' = Alive"
          "currentWorkerMutex (inst w') = None"
          "goroutines w' = goroutines w @ [(nextAddr w + 3, JobSpawned j (nextAddr w + 2))]"
          using al free by (auto simp: Admit p setAndStartWorker_admit [OF free none x])
        have "disciplined w'"
          by (rule ext [of _ ?es]) (auto simp: w' but_context_reads_def)
        then show ?thesis by (simp add: Admit w')
      qed
    qed
  next
    case (Start g)
    with ex obtain wrk c where look: "map_of (goroutines w) g = Some (JobSpawned wrk c)"
      by (auto split: option.splits goroutine.splits)
    show ?thesis
    proof (cases wrk)
      case None
      let ?es = "[Infof ''Starting worker...'']"
      from ex look have w': "trace w' = trace w @ ?es" "process w' = Panicked"
        "currentWorkerMutex (inst w') = None"
        using free by (auto simp: Start None worker_start_nil panicked_def)
      have "disciplined w'"
        by (rule ext [of _ ?es]) (auto simp: w' but_context_reads_def)
      then show ?thesis by (simp add: w')
    next
      case (Some j)
      let ?es = "[Infof ''Starting worker...'', Read g F_currentContext,
          CallRun g j (currentContext (inst w))]"
      from ex look have w': "trace w' = trace w @ ?es" "process w' = Alive"
        "currentWorkerMutex (inst w') = None"
        using al free by (auto simp: Start Some worker_start_job become_def)
      have "disciplined w'"
        by (rule ext [of _ ?es]) (auto simp: w' but_context_reads_def)
      moreover have "\<not> guarded None (trace w')"
        by (simp add: w' guarded_append h0)
      ultimately show ?thesis by (simp add: w')
    qed
  next
    case (Finish g err)
    with ex obtain j c where look: "map_of (goroutines w) g = Some (JobInRun j c)"
      by (auto split: option.splits goroutine.splits)
    let ?es = "[RunReturned g j err, Acquire g, Write g F_currentContext,
               Write g F_currentCancelFunc, Write g F_lastRunError, Release g]"
    from ex look have w': "trace w' = trace w @ ?es" "process w' = Alive"
      "currentWorkerMutex (inst w') = None"
      "goroutines w' = remove1 (g, JobInRun j c) (goroutines w) @ [(g, JobReturned c)]"
      using al free by (auto simp: Finish worker_save_state_eq [OF free] become_def)
    have "disciplined w'"
      by (rule ext [of _ ?es])
        (use set_remove1_append [of "(g, JobInRun j c)" "goroutines w" "(g, JobReturned c)"]
          in \<open>auto simp: w' but_context_reads_def\<close>)
    then show ?thesis by (simp add: Finish w')
  next
    case (CloseDone g)
    with ex obtain c where look: "map_of (goroutines w) g = Some (JobReturned c)"
      by (auto split: option.splits goroutine.splits)
    from ex look CloseDone
    consider "trace w' = trace w @ [Close g c]" "currentWorkerMutex (inst w') = None"
        "goroutines w' = remove1 (g, JobReturned c) (goroutines w)"
      | "trace w' = trace w @ []" "currentWorkerMutex (inst w') = None"
        "goroutines w' = goroutines w"
      using free
      by (auto simp: worker_close_done_def close_chan_def emit_def over_def panicked_def
          split: option.splits chan.splits bool.splits)
    then show ?thesis
    proof cases
      case 1
      have "disciplined w'"
        by (rule ext [of _ "[Close g c]"])
          (use set_remove1_subset [of "(g, JobReturned c)" "goroutines w"]
            in \<open>auto simp: 1 but_context_reads_def\<close>)
      then show ?thesis by (simp add: CloseDone 1)
    next
      case 2
      have "disciplined w'"
        by (rule ext [of _ "[]"]) (auto simp: 2 but_context_reads_def)
      then show ?thesis by (simp add: CloseDone 2)
    qed
  next
    case (Signal g s)
    with ex obtain c u where look: "map_of (goroutines w) g = Some (SignalWait c)"
      and u: "signal_handler g s w = Some u" and w': "w' = over g (SignalWait c) u"
      by (auto split: option.splits goroutine.splits if_splits)
    have sub: "set (goroutines w') \<subseteq> set (goroutines u)"
      using set_remove1_subset [of "(g, SignalWait c)" "goroutines u"] by (simp add: w' over_def)
    show ?thesis
    proof (cases "currentCancelFunc (inst w)")
      case None
      let ?es = "[Acquire g, Read g F_currentCancelFunc,
               Printf ''Shutting down idle worker after receiving signal: %v'' s, Exit g 0]"
      from u have f: "trace w' = trace w @ ?es" "process w' = Exited 0"
        "currentWorkerMutex (inst w') = Some g" "goroutines u = goroutines w"
        by (auto simp: signal_handler_exit [OF free None] w' over_def)
      have "disciplined w'"
        by (rule ext [of _ ?es]) (use sub in \<open>auto simp: f but_context_reads_def\<close>)
      then show ?thesis by (simp add: Signal f)
    next
      case (Some cf)
      obtain b where cf: "cf = CancelFunc b" by (cases cf)
      let ?es = "[Acquire g, Read g F_currentCancelFunc, Read g F_currentCancelFunc,
               Cancel g b, Release g]"
      from u have f: "trace w' = trace w @ ?es" "process w' = Alive"
        "currentWorkerMutex (inst w') = None" "goroutines u = goroutines w"
        using al free
        by (auto simp: signal_handler_cancel [OF free Some [unfolded cf]] w' over_def)
      have "disciplined w'"
        by (rule ext [of _ ?es]) (use sub in \<open>auto simp: f but_context_reads_def\<close>)
      then show ?thesis by (simp add: Signal f)
    qed
  qed
qed

lemma run_disciplined:
  assumes "disciplined w" and "run as w = Some w'"
  shows "disciplined w'
    \<and> (process w' \<noteq> Panicked \<and> (\<not> guarded None (trace w) \<or> (\<exists>g. Start g \<in> set as))
         \<longrightarrow> \<not> guarded None (trace w'))"
  using assms
proof (induction as arbitrary: w)
  case Nil
  then show ?case by simp
next
  case (Cons a as)
  from Cons.prems(2) obtain u where u: "step a w = Some u" and r: "run as u = Some w'"
    by (auto split: option.splits)
  from step_disciplined [OF Cons.prems(1) u]
  obtain es where du: "disciplined u" and tr: "trace u = trace w @ es"
    and br: "(\<exists>g. a = Start g) \<and> process u \<noteq> Panicked \<longrightarrow> \<not> guarded None (trace u)"
    by blast
  from tr have pre: "\<not> guarded None (trace w) \<Longrightarrow> \<not> guarded None (trace u)"
    by (simp add: guarded_append)
  have al: "process w' \<noteq> Panicked \<Longrightarrow> process u \<noteq> Panicked"
    using r by (rule run_alive)
  from Cons.IH [OF du r] pre br al show ?case by auto
qed

lemma mutex_free_while_alive:
  assumes "run as (NewInstance ts c lt cdi) = Some w" and "process w = Alive"
  shows "currentWorkerMutex (inst w) = None"
  using run_disciplined [OF disciplined_NewInstance assms(1)] assms(2)
  by (simp add: disciplined_def)

lemma lock_discipline_but_context_reads:
  assumes "run as (NewInstance ts c lt cdi) = Some w"
  shows "guarded None (but_context_reads (trace w))"
  using run_disciplined [OF disciplined_NewInstance assms] by (simp add: disciplined_def)

lemma lock_discipline_broken_by_start:
  assumes "run as (NewInstance ts c lt cdi) = Some w" and "Start g \<in> set as"
    and "process w \<noteq> Panicked"
  shows "\<not> guarded None (trace w)"
  using run_disciplined [OF disciplined_NewInstance assms(1)] assms(2,3) by blast


text \<open>
  C9. The history of the admission keeps the lock discipline. The job goroutine then reads
  \<open>currentContext\<close> at line 91, before it locks the mutex at line 94: the history no longer
  keeps the discipline, the mutex being free at that read. It is the one access outside the
  lock: without that read the history keeps the discipline.
\<close>

theorem context_read_outside_lock:
  "run [Admit 9 (Some (Worker 1)) (Some 0)] example_instance = Some example_admitted
   \<and> guarded None (trace example_admitted)
   \<and> run [Start 4] example_admitted = Some example_running
   \<and> trace example_running = trace example_admitted
        @ [Infof ''Starting worker...'', Read 4 F_currentContext,
           CallRun 4 (Worker 1) (Some (CancelCtx 2 Background))]
   \<and> currentWorkerMutex (inst example_admitted) = None
   \<and> \<not> guarded None (trace example_running)
   \<and> guarded None (but_context_reads (trace example_running))"
  by (simp add: example_defs eval_rules but_context_reads_def)

section \<open>The lock timeout\<close>

text \<open>
  C10. The instance that \<open>NewInstance\<close> returns has a zero \<open>lockTimeout\<close> whatever duration
  was passed, the default wrangler with it; the field stays zero in every schedule, and
  every wrangler that \<open>CreateWrangler\<close> builds gets a zero lock timeout.
\<close>

theorem NewInstance_ignores_lockTimeout:
  "lockTimeout (inst (NewInstance ts c lt cdi)) = 0
   \<and> NewInstance ts c lt cdi = NewInstance ts c lt' cdi
   \<and> map_option wr_lockTimeout
        (deref (NewInstance ts c lt cdi) (wr (inst (NewInstance ts c lt cdi)))) = Some 0
   \<and> (run as (NewInstance ts c lt cdi) = Some w \<longrightarrow>
        lockTimeout (inst w) = 0
        \<and> map_option wr_lockTimeout
             (wranglers (snd (CreateWrangler lg w)) (fst (CreateWrangler lg w))) = Some 0)"
proof -
  have z: "lockTimeout (inst (NewInstance ts c lt cdi)) = 0"
    by (simp add: NewInstance_eq)
  have "lockTimeout (inst w) = 0
        \<and> map_option wr_lockTimeout
             (wranglers (snd (CreateWrangler lg w)) (fst (CreateWrangler lg w))) = Some 0"
    if "run as (NewInstance ts c lt cdi) = Some w"
    using run_keeps_lockTimeout [OF that] z by (simp add: CreateWrangler_eq)
  with z show ?thesis by (simp add: NewInstance_eq deref_def)
qed

text \<open>
  The instance of the example was built with a lock timeout of 30.
\<close>

theorem NewInstance_ignores_lockTimeout_witness:
  "run [Admit 9 (Some (Worker 1)) (Some 0), Start 4] (NewInstance (TopoServer 0) ''test'' 30 1)
      = Some example_running
   \<and> lockTimeout (inst example_running) = 0
   \<and> CreateWrangler (CallerLogger 7) example_running
       = (5, after [MakeWrangler (CallerLogger 7)] example_running)
   \<and> map_option wr_lockTimeout (wranglers (after [MakeWrangler (CallerLogger 7)] example_running) 5)
       = Some 0
   \<and> NewInstance (TopoServer 0) ''test'' 30 1 = NewInstance (TopoServer 0) ''test'' 0 1"
proof -
  have r: "run [Admit 9 (Some (Worker 1)) (Some 0), Start 4] (NewInstance (TopoServer 0) ''test'' 30 1)
      = Some example_running"
    and k: "CreateWrangler (CallerLogger 7) example_running
       = (5, after [MakeWrangler (CallerLogger 7)] example_running)"
    by (simp_all add: example_defs eval_rules)
  from NewInstance_ignores_lockTimeout [of "TopoServer 0" "''test''" 30 1 0
      "[Admit 9 (Some (Worker 1)) (Some 0), Start 4]" example_running "CallerLogger 7"] r
  show ?thesis by (simp add: k)
qed

end
